theory Spec2Isabelle
  imports Main "HOL-Library.Word" "HOL-Library.Multiset"
begin

unbundle bit_operations_syntax

section \<open>The directory walker of scanner/walk\_dir\_tree.go\<close>

text \<open>
  The walker reads the file system through \<open>os.Stat\<close>, \<open>ioutil.ReadDir\<close> and
  \<open>utils.IsDirReadable\<close>, classifies names with \<open>utils.IsAudioFile\<close>,
  \<open>utils.IsPlaylist\<close> and \<open>utils.IsImageFile\<close>, and writes its records to a channel.
  The file system is taken as it is at the start of the walk: the calls are functions of the
  path. Every call to the file system and every operation on the channel is recorded, in
  program order, in a list of events that each function returns beside its results. A send
  on the channel is taken to complete: the receiver at the other end is not part of the
  model. The calls to the logger write diagnostics only and are left out.
\<close>

subsection \<open>Data\<close>

text \<open>A \<open>time.Time\<close> is an instant on the time line; \<open>After\<close> is \<open>>\<close> on instants.\<close>

type_synonym time = int

definition After :: "time \<Rightarrow> time \<Rightarrow> bool" where
  "After t u = (u < t)"

text \<open>The errors of package \<open>os\<close>: operation, path and cause.\<close>

datatype error = PathError string string string

text \<open>
  \<open>os.FileInfo\<close>: the methods \<open>Name()\<close>, \<open>Mode()\<close> and \<open>ModTime()\<close>;
  \<open>IsDir()\<close> abbreviates \<open>Mode().IsDir()\<close>. \<open>os.FileMode\<close> is a \<open>uint32\<close> with
  \<open>ModeDir = 1 << 31\<close> and \<open>ModeSymlink = 1 << 27\<close>.
\<close>

record fileInfo =
  fi_Name :: string
  fi_Mode :: "32 word"
  fi_ModTime :: time

definition ModeDir :: "32 word" where
  "ModeDir = 0x80000000"

definition ModeSymlink :: "32 word" where
  "ModeSymlink = 0x8000000"

definition IsDir :: "fileInfo \<Rightarrow> bool" where
  "IsDir fi = (fi_Mode fi AND ModeDir \<noteq> 0)"

record dirStats =
  Path :: string
  ModTime :: time
  HasImages :: bool
  HasPlaylist :: bool
  AudioFilesCount :: "32 word"

text \<open>The zero value of \<open>dirStats\<close>, which the named result \<open>stats\<close> of \<open>loadDir\<close> starts from.\<close>

definition zeroStats :: dirStats where
  "zeroStats = \<lparr>Path = [], ModTime = 0, HasImages = False, HasPlaylist = False,
     AudioFilesCount = 0\<rparr>"

text \<open>
  A \<open>context.Context\<close>, as far as a walker could observe it: whether it has been cancelled.
\<close>

record Context =
  cancelled :: bool

text \<open>
  What the walker is given from outside this file: the file system, the functions of
  \<open>path/filepath\<close>, the classifiers of package \<open>utils\<close> and \<open>consts.SkipScanFile\<close>.
\<close>

record env =
  osStat :: "string \<Rightarrow> error + fileInfo"
  ioutilReadDir :: "string \<Rightarrow> error + fileInfo list"
  filepathJoin :: "string list \<Rightarrow> string"
  filepathClean :: "string \<Rightarrow> string"
  utilsIsAudioFile :: "string \<Rightarrow> bool"
  utilsIsPlaylist :: "string \<Rightarrow> bool"
  utilsIsImageFile :: "string \<Rightarrow> bool"
  utilsIsDirReadable :: "string \<Rightarrow> bool"
  constsSkipScanFile :: string

datatype event =
    EvStat string
  | EvReadDir string
  | EvIsDirReadable string
  | EvSend dirStats
  | EvClose

subsection \<open>The helpers of \<open>loadDir\<close>\<close>

definition HasPrefix :: "string \<Rightarrow> string \<Rightarrow> bool" where
  "HasPrefix s p = (take (length p) s = p)"

definition isDirOrSymlinkToDir :: "env \<Rightarrow> string \<Rightarrow> fileInfo \<Rightarrow> event list \<times> bool \<times> error option" where
  "isDirOrSymlinkToDir E baseDir dirInfo =
     (if IsDir dirInfo then ([], True, None)
      else if fi_Mode dirInfo AND ModeSymlink = 0 then ([], False, None)
      else (let p = filepathJoin E [baseDir, fi_Name dirInfo] in
            case osStat E p of
              Inl err \<Rightarrow> ([EvStat p], False, Some err)
            | Inr dirInfo' \<Rightarrow> ([EvStat p], IsDir dirInfo', None)))"

definition isDirIgnored :: "env \<Rightarrow> string \<Rightarrow> fileInfo \<Rightarrow> event list \<times> bool" where
  "isDirIgnored E baseDir dirInfo =
     (if HasPrefix (fi_Name dirInfo) ''.'' then ([], True)
      else (let p = filepathJoin E [baseDir, fi_Name dirInfo, constsSkipScanFile E] in
            case osStat E p of
              Inl err \<Rightarrow> ([EvStat p], False)
            | Inr _ \<Rightarrow> ([EvStat p], True)))"

definition isDirReadable :: "env \<Rightarrow> string \<Rightarrow> fileInfo \<Rightarrow> event list \<times> bool" where
  "isDirReadable E baseDir dirInfo =
     (let path = filepathJoin E [baseDir, fi_Name dirInfo] in
      ([EvIsDirReadable path], utilsIsDirReadable E path))"

subsection \<open>\<open>loadDir\<close>\<close>

text \<open>
  The condition \<open>isDir && !isDirIgnored(dirPath, f) && isDirReadable(dirPath, f)\<close>, with
  the short-circuit evaluation of \<open>&&\<close>.
\<close>

definition isChild :: "env \<Rightarrow> string \<Rightarrow> fileInfo \<Rightarrow> bool \<Rightarrow> event list \<times> bool" where
  "isChild E dirPath f isDir =
     (if \<not> isDir then ([], False)
      else case isDirIgnored E dirPath f of
             (t1, True) \<Rightarrow> (t1, False)
           | (t1, False) \<Rightarrow>
               (case isDirReadable E dirPath f of (t2, r) \<Rightarrow> (t1 @ t2, r)))"

text \<open>The else branch of the loop body: the entry is handled as a file.\<close>

definition leafStats :: "env \<Rightarrow> fileInfo \<Rightarrow> dirStats \<Rightarrow> dirStats" where
  "leafStats E f stats =
     (let stats1 = (if After (fi_ModTime f) (ModTime stats)
                    then stats\<lparr>ModTime := fi_ModTime f\<rparr> else stats)
      in if utilsIsAudioFile E (fi_Name f)
         then stats1\<lparr>AudioFilesCount := AudioFilesCount stats1 + 1\<rparr>
         else (let stats2 = stats1\<lparr>HasPlaylist := HasPlaylist stats1 \<or> utilsIsPlaylist E (fi_Name f)\<rparr>
               in stats2\<lparr>HasImages := HasImages stats2 \<or> utilsIsImageFile E (fi_Name f)\<rparr>))"

text \<open>One iteration of \<open>for _, f := range files\<close>.\<close>

definition loadDirEntry ::
  "env \<Rightarrow> string \<Rightarrow> fileInfo \<Rightarrow> string list \<times> dirStats \<Rightarrow> event list \<times> string list \<times> dirStats" where
  "loadDirEntry E dirPath f cs =
     (case cs of (children, stats) \<Rightarrow>
        (case isDirOrSymlinkToDir E dirPath f of
           (t1, isDir, Some err) \<Rightarrow> (t1, children, stats)
         | (t1, isDir, None) \<Rightarrow>
             (case isChild E dirPath f isDir of
                (t2, True) \<Rightarrow>
                  (t1 @ t2, children @ [filepathJoin E [dirPath, fi_Name f]], stats)
              | (t2, False) \<Rightarrow> (t1 @ t2, children, leafStats E f stats))))"

fun loadDirLoop ::
  "env \<Rightarrow> string \<Rightarrow> fileInfo list \<Rightarrow> string list \<times> dirStats \<Rightarrow> event list \<times> string list \<times> dirStats" where
  "loadDirLoop E dirPath [] cs = ([], cs)"
| "loadDirLoop E dirPath (f # files) cs =
     (case loadDirEntry E dirPath f cs of
        (t1, cs1) \<Rightarrow> (case loadDirLoop E dirPath files cs1 of (t2, cs2) \<Rightarrow> (t1 @ t2, cs2)))"

text \<open>
  \<open>loadDir\<close> returns its three named results \<open>children\<close>, \<open>stats\<close> and \<open>err\<close>. On a
  failure of \<open>os.Stat\<close> they are the zero values and the error; on a failure of
  \<open>ioutil.ReadDir\<close> the statistics already carry the directory's modification time.
\<close>

definition loadDir ::
  "env \<Rightarrow> Context \<Rightarrow> string \<Rightarrow> event list \<times> string list \<times> dirStats \<times> error option" where
  "loadDir E ctx dirPath =
     (case osStat E dirPath of
        Inl err \<Rightarrow> ([EvStat dirPath], [], zeroStats, Some err)
      | Inr dirInfo \<Rightarrow>
          (let stats = zeroStats\<lparr>ModTime := fi_ModTime dirInfo\<rparr> in
           case ioutilReadDir E dirPath of
             Inl err \<Rightarrow> ([EvStat dirPath, EvReadDir dirPath], [], stats, Some err)
           | Inr files \<Rightarrow>
               (case loadDirLoop E dirPath files ([], stats) of
                  (t, children, stats') \<Rightarrow>
                    ([EvStat dirPath, EvReadDir dirPath] @ t, children, stats', None))))"

subsection \<open>\<open>walkFolder\<close> and \<open>walkDirTree\<close>\<close>

text \<open>
  \<open>for _, c := range children\<close> with its early return: the walks of the children run in
  order and the first error ends the loop. \<open>None\<close> is a walk that does not return.
\<close>

fun rangeChildren ::
  "(string \<Rightarrow> (event list \<times> error option) option) \<Rightarrow> string list \<Rightarrow> (event list \<times> error option) option" where
  "rangeChildren walk [] = Some ([], None)"
| "rangeChildren walk (c # cs) =
     (case walk c of
        None \<Rightarrow> None
      | Some (t, Some err) \<Rightarrow> Some (t, Some err)
      | Some (t, None) \<Rightarrow>
          (case rangeChildren walk cs of
             None \<Rightarrow> None
           | Some (t', r) \<Rightarrow> Some (t @ t', r)))"

text \<open>
  The recursion of \<open>walkFolder\<close> follows the directory graph, which a symbolic link can
  close into a cycle, so the depth of the recursion is bounded by a number \<open>n\<close>: a walk
  that needs a deeper recursion has the value \<open>None\<close>.
\<close>

fun walkFolder ::
  "nat \<Rightarrow> env \<Rightarrow> Context \<Rightarrow> string \<Rightarrow> string \<Rightarrow> (event list \<times> error option) option" where
  "walkFolder 0 E ctx rootPath currentFolder = None"
| "walkFolder (Suc n) E ctx rootPath currentFolder =
     (case loadDir E ctx currentFolder of
        (t1, children, stats, Some err) \<Rightarrow> Some (t1, Some err)
      | (t1, children, stats, None) \<Rightarrow>
          (case rangeChildren (walkFolder n E ctx rootPath) children of
             None \<Rightarrow> None
           | Some (t2, Some err) \<Rightarrow> Some (t1 @ t2, Some err)
           | Some (t2, None) \<Rightarrow>
               (let dir = filepathClean E currentFolder in
                Some (t1 @ t2 @ [EvSend (stats\<lparr>Path := dir\<rparr>)], None))))"

definition walkDirTree ::
  "nat \<Rightarrow> env \<Rightarrow> Context \<Rightarrow> string \<Rightarrow> (event list \<times> error option) option" where
  "walkDirTree n E ctx rootFolder =
     (case walkFolder n E ctx rootFolder rootFolder of
        None \<Rightarrow> None
      | Some (t, err) \<Rightarrow> Some (t @ [EvClose], err))"

subsection \<open>Reading a list of events\<close>

fun sent :: "event list \<Rightarrow> dirStats list" where
  "sent [] = []"
| "sent (EvSend s # t) = s # sent t"
| "sent (e # t) = sent t"

fun listed :: "event list \<Rightarrow> string list" where
  "listed [] = []"
| "listed (EvReadDir p # t) = p # listed t"
| "listed (e # t) = listed t"

definition closes :: "event list \<Rightarrow> nat" where
  "closes t = length (filter (\<lambda>e. e = EvClose) t)"

subsection \<open>Concrete file systems\<close>

text \<open>
  A file system given by a table: each path has the \<open>fileInfo\<close> that \<open>os.Stat\<close> returns
  for it and, when it can be listed, its entries as \<open>ioutil.ReadDir\<close> returns them. Paths
  are joined with a slash and are clean already; a name is an audio file, a playlist or an
  image by its extension.
\<close>

type_synonym fsTable = "(string \<times> fileInfo \<times> fileInfo list option) list"

definition HasSuffix :: "string \<Rightarrow> string \<Rightarrow> bool" where
  "HasSuffix s p = (drop (length s - length p) s = p \<and> length p \<le> length s)"

fun joinSlash :: "string list \<Rightarrow> string" where
  "joinSlash [] = []"
| "joinSlash [x] = x"
| "joinSlash (x # y # ys) = x @ ''/'' @ joinSlash (y # ys)"

definition tableStat :: "fsTable \<Rightarrow> string \<Rightarrow> error + fileInfo" where
  "tableStat tbl p =
     (case map_of tbl p of
        None \<Rightarrow> Inl (PathError ''stat'' p ''no such file or directory'')
      | Some (fi, _) \<Rightarrow> Inr fi)"

definition tableReadDir :: "fsTable \<Rightarrow> string \<Rightarrow> error + fileInfo list" where
  "tableReadDir tbl p =
     (case map_of tbl p of
        None \<Rightarrow> Inl (PathError ''open'' p ''no such file or directory'')
      | Some (fi, None) \<Rightarrow> Inl (PathError ''open'' p ''permission denied'')
      | Some (fi, Some files) \<Rightarrow> Inr files)"

definition tableEnv :: "fsTable \<Rightarrow> string list \<Rightarrow> env" where
  "tableEnv tbl unreadable =
     \<lparr>osStat = tableStat tbl,
      ioutilReadDir = tableReadDir tbl,
      filepathJoin = joinSlash,
      filepathClean = (\<lambda>p. p),
      utilsIsAudioFile = (\<lambda>name. HasSuffix name ''.mp3''),
      utilsIsPlaylist = (\<lambda>name. HasSuffix name ''.m3u''),
      utilsIsImageFile = (\<lambda>name. HasSuffix name ''.jpg''),
      utilsIsDirReadable = (\<lambda>p. p \<notin> set unreadable),
      constsSkipScanFile = ''.ndignore''\<rparr>"

definition dirEntry :: "string \<Rightarrow> time \<Rightarrow> fileInfo" where
  "dirEntry name t = \<lparr>fi_Name = name, fi_Mode = ModeDir OR 0x1ED, fi_ModTime = t\<rparr>"

definition fileEntry :: "string \<Rightarrow> time \<Rightarrow> fileInfo" where
  "fileEntry name t = \<lparr>fi_Name = name, fi_Mode = 0x1A4, fi_ModTime = t\<rparr>"

definition linkEntry :: "string \<Rightarrow> time \<Rightarrow> fileInfo" where
  "linkEntry name t = \<lparr>fi_Name = name, fi_Mode = ModeSymlink OR 0x1FF, fi_ModTime = t\<rparr>"

text \<open>
  A music folder \<open>/r\<close> with a subfolder \<open>a\<close>, a hidden folder, a folder \<open>b\<close> that holds the
  marker file, a picture, a dangling symbolic link and a song.
\<close>

definition musicTable :: fsTable where
  "musicTable =
     [(''/r'', dirEntry ''r'' 5,
         Some [dirEntry ''.hidden'' 50, dirEntry ''a'' 7, dirEntry ''b'' 9,
               fileEntry ''cover.jpg'' 20, linkEntry ''dangling'' 99, fileEntry ''t.mp3'' 30]),
      (''/r/.hidden'', dirEntry ''.hidden'' 50, Some [fileEntry ''x.mp3'' 1]),
      (''/r/a'', dirEntry ''a'' 7, Some [fileEntry ''song.mp3'' 3]),
      (''/r/b'', dirEntry ''b'' 9, Some [fileEntry ''.ndignore'' 2, fileEntry ''c.mp3'' 2]),
      (''/r/b/.ndignore'', fileEntry ''.ndignore'' 2, None),
      (''/r/b/c.mp3'', fileEntry ''c.mp3'' 2, None),
      (''/r/cover.jpg'', fileEntry ''cover.jpg'' 20, None),
      (''/r/t.mp3'', fileEntry ''t.mp3'' 30, None),
      (''/r/a/song.mp3'', fileEntry ''song.mp3'' 3, None),
      (''/r/.hidden/x.mp3'', fileEntry ''x.mp3'' 1, None)]"

definition musicEnv :: env where
  "musicEnv = tableEnv musicTable []"

text \<open>The events of the walk of \<open>/r\<close>, before the channel is closed.\<close>

definition musicEvents :: "event list" where
  "musicEvents =
     [EvStat ''/r'', EvReadDir ''/r'', EvStat ''/r/a/.ndignore'', EvIsDirReadable ''/r/a'',
      EvStat ''/r/b/.ndignore'', EvStat ''/r/dangling'', EvStat ''/r/a'', EvReadDir ''/r/a'',
      EvSend \<lparr>Path = ''/r/a'', ModTime = 7, HasImages = False, HasPlaylist = False,
        AudioFilesCount = 1\<rparr>,
      EvSend \<lparr>Path = ''/r'', ModTime = 50, HasImages = True, HasPlaylist = False,
        AudioFilesCount = 1\<rparr>]"

text \<open>The record of \<open>/r\<close> itself.\<close>

definition musicRecord :: dirStats where
  "musicRecord = \<lparr>Path = ''/r'', ModTime = 50, HasImages = True, HasPlaylist = False,
     AudioFilesCount = 1\<rparr>"

text \<open>A folder \<open>/m\<close> whose only entry is a hidden folder named \<open>.old.mp3\<close>.\<close>

definition hiddenTable :: fsTable where
  "hiddenTable =
     [(''/m'', dirEntry ''m'' 5, Some [dirEntry ''.old.mp3'' 40]),
      (''/m/.old.mp3'', dirEntry ''.old.mp3'' 40, Some [])]"

definition hiddenEnv :: env where
  "hiddenEnv = tableEnv hiddenTable []"

text \<open>The record and the events of the walk of \<open>/m\<close>, before the channel is closed.\<close>

definition hiddenRecord :: dirStats where
  "hiddenRecord = \<lparr>Path = ''/m'', ModTime = 40, HasImages = False, HasPlaylist = False,
     AudioFilesCount = 1\<rparr>"

definition hiddenEvents :: "event list" where
  "hiddenEvents = [EvStat ''/m'', EvReadDir ''/m'', EvSend hiddenRecord]"





text \<open>
  A folder \<open>/r\<close> whose entry \<open>loop\<close> is a symbolic link to \<open>/r\<close> itself: the paths
  \<open>/r\<close>, \<open>/r/loop\<close>, \<open>/r/loop/loop\<close>, ... name the same directory, as long as the
  operating system resolves them. It follows at most 40 symbolic links in one path and
  fails beyond that (\<open>ELOOP\<close>).
\<close>

fun countLoops :: "string \<Rightarrow> nat option" where
  "countLoops [] = Some 0"
| "countLoops (c1 # c2 # c3 # c4 # c5 # rest) =
     (if [c1, c2, c3, c4, c5] = ''/loop'' then map_option Suc (countLoops rest) else None)"
| "countLoops _ = None"

definition loopLinks :: "string \<Rightarrow> nat option" where
  "loopLinks p = (if take 2 p = ''/r'' then countLoops (drop 2 p) else None)"

definition loopStat :: "string \<Rightarrow> error + fileInfo" where
  "loopStat p =
     (case loopLinks p of
        None \<Rightarrow> Inl (PathError ''stat'' p ''no such file or directory'')
      | Some k \<Rightarrow>
          if k \<le> 40 then Inr (dirEntry ''r'' 5)
          else Inl (PathError ''stat'' p ''too many levels of symbolic links''))"

definition loopReadDir :: "string \<Rightarrow> error + fileInfo list" where
  "loopReadDir p =
     (case loopLinks p of
        None \<Rightarrow> Inl (PathError ''open'' p ''no such file or directory'')
      | Some k \<Rightarrow>
          if k \<le> 40 then Inr [linkEntry ''loop'' 6]
          else Inl (PathError ''open'' p ''too many levels of symbolic links''))"

definition loopEnv :: env where
  "loopEnv =
     \<lparr>osStat = loopStat,
      ioutilReadDir = loopReadDir,
      filepathJoin = joinSlash,
      filepathClean = (\<lambda>p. p),
      utilsIsAudioFile = (\<lambda>name. HasSuffix name ''.mp3''),
      utilsIsPlaylist = (\<lambda>name. HasSuffix name ''.m3u''),
      utilsIsImageFile = (\<lambda>name. HasSuffix name ''.jpg''),
      utilsIsDirReadable = (\<lambda>p. True),
      constsSkipScanFile = ''.ndignore''\<rparr>"

text \<open>
  What a walk that returns has done, as its caller and the receiver see it: the records
  sent and the error, or the number of records sent and the error.
\<close>

definition walkRecords ::
  "(event list \<times> error option) option \<Rightarrow> (dirStats list \<times> error option) option" where
  "walkRecords w = map_option (\<lambda>(t, err). (sent t, err)) w"

definition walkOutcome :: "(event list \<times> error option) option \<Rightarrow> (nat \<times> error option) option" where
  "walkOutcome w = map_option (\<lambda>(t, err). (length (sent t), err)) w"







subsection \<open>The notions the properties are stated in\<close>

text \<open>What \<open>loadDir\<close> finds at a path: the subdirectories to walk, the record and the error.\<close>

definition dirChildren :: "env \<Rightarrow> Context \<Rightarrow> string \<Rightarrow> string list" where
  "dirChildren E ctx p = (case loadDir E ctx p of (t, children, stats, err) \<Rightarrow> children)"

definition dirRecord :: "env \<Rightarrow> Context \<Rightarrow> string \<Rightarrow> dirStats" where
  "dirRecord E ctx p =
     (case loadDir E ctx p of (t, children, stats, err) \<Rightarrow> stats\<lparr>Path := filepathClean E p\<rparr>)"

definition dirError :: "env \<Rightarrow> Context \<Rightarrow> string \<Rightarrow> error option" where
  "dirError E ctx p = (case loadDir E ctx p of (t, children, stats, err) \<Rightarrow> err)"

text \<open>
  The directory graph that the walk follows: \<open>c\<close> is a child of \<open>p\<close> when \<open>walkFolder\<close> at
  \<open>p\<close> calls itself on \<open>c\<close>. The descendants of a directory are what this relation reaches.
\<close>

definition childRel :: "env \<Rightarrow> Context \<Rightarrow> (string \<times> string) set" where
  "childRel E ctx = {(p, c). c \<in> set (dirChildren E ctx p)}"

definition reachRel :: "env \<Rightarrow> Context \<Rightarrow> string \<Rightarrow> (string \<times> string) set" where
  "reachRel E ctx root = {(p, c). (root, p) \<in> (childRel E ctx)\<^sup>* \<and> (p, c) \<in> childRel E ctx}"

definition dirModTime :: "env \<Rightarrow> string \<Rightarrow> time" where
  "dirModTime E p = (case osStat E p of Inl err \<Rightarrow> 0 | Inr dirInfo \<Rightarrow> fi_ModTime dirInfo)"

definition dirListing :: "env \<Rightarrow> string \<Rightarrow> fileInfo list" where
  "dirListing E p = (case ioutilReadDir E p of Inl err \<Rightarrow> [] | Inr files \<Rightarrow> files)"

text \<open>
  The entries of a listing, by what \<open>isDirOrSymlinkToDir\<close> says of them: a file, a
  subdirectory candidate (a directory or a symbolic link to one), or a symbolic link that
  cannot be resolved.
\<close>

definition isFileEntry :: "env \<Rightarrow> string \<Rightarrow> fileInfo \<Rightarrow> bool" where
  "isFileEntry E dirPath f = (snd (isDirOrSymlinkToDir E dirPath f) = (False, None))"

definition isCandidate :: "env \<Rightarrow> string \<Rightarrow> fileInfo \<Rightarrow> bool" where
  "isCandidate E dirPath f = (snd (isDirOrSymlinkToDir E dirPath f) = (True, None))"

definition isBrokenLink :: "env \<Rightarrow> string \<Rightarrow> fileInfo \<Rightarrow> bool" where
  "isBrokenLink E dirPath f = (snd (snd (isDirOrSymlinkToDir E dirPath f)) \<noteq> None)"

text \<open>The three tests of the inclusion policy.\<close>

definition isHidden :: "fileInfo \<Rightarrow> bool" where
  "isHidden f = HasPrefix (fi_Name f) ''.''"

definition hasMarker :: "env \<Rightarrow> string \<Rightarrow> fileInfo \<Rightarrow> bool" where
  "hasMarker E dirPath f =
     (case osStat E (filepathJoin E [dirPath, fi_Name f, constsSkipScanFile E]) of
        Inl err \<Rightarrow> False | Inr fi \<Rightarrow> True)"

definition isReadable :: "env \<Rightarrow> string \<Rightarrow> fileInfo \<Rightarrow> bool" where
  "isReadable E dirPath f = utilsIsDirReadable E (filepathJoin E [dirPath, fi_Name f])"

definition passesPolicy :: "env \<Rightarrow> string \<Rightarrow> fileInfo \<Rightarrow> bool" where
  "passesPolicy E dirPath f = (\<not> isHidden f \<and> \<not> hasMarker E dirPath f \<and> isReadable E dirPath f)"

definition isIncluded :: "env \<Rightarrow> string \<Rightarrow> fileInfo \<Rightarrow> bool" where
  "isIncluded E dirPath f = (isCandidate E dirPath f \<and> passesPolicy E dirPath f)"

text \<open>
  The entries that reach the else branch of the loop of \<open>loadDir\<close>: the files, and the
  subdirectory candidates that the policy excludes.
\<close>

definition isLeafEntry :: "env \<Rightarrow> string \<Rightarrow> fileInfo \<Rightarrow> bool" where
  "isLeafEntry E dirPath f =
     (isFileEntry E dirPath f \<or> (isCandidate E dirPath f \<and> \<not> passesPolicy E dirPath f))"

text \<open>
  The statistics as the specification words them, over the direct entries that are files:
  the modification time is the maximum of the directory's own and the files', and the
  audio count is the number of files that the audio classifier accepts.
\<close>

definition specModTime :: "env \<Rightarrow> string \<Rightarrow> time" where
  "specModTime E p =
     Max (insert (dirModTime E p) (fi_ModTime ` {f \<in> set (dirListing E p). isFileEntry E p f}))"


section \<open>Auxiliary facts\<close>

subsection \<open>The events of \<open>loadDir\<close>\<close>

lemma sent_append: "sent (a @ b) = sent a @ sent b"
  by (induction a rule: sent.induct) auto

lemma listed_append: "listed (a @ b) = listed a @ listed b"
  by (induction a rule: listed.induct) auto

lemma closes_append: "closes (a @ b) = closes a + closes b"
  by (simp add: closes_def)

lemma isDirOrSymlinkToDir_quiet:
  "sent (fst (isDirOrSymlinkToDir E p f)) = [] \<and> listed (fst (isDirOrSymlinkToDir E p f)) = []
   \<and> closes (fst (isDirOrSymlinkToDir E p f)) = 0"
  by (simp add: isDirOrSymlinkToDir_def closes_def Let_def split: sum.splits)

lemma isChild_quiet:
  "sent (fst (isChild E p f b)) = [] \<and> listed (fst (isChild E p f b)) = []
   \<and> closes (fst (isChild E p f b)) = 0"
  by (simp add: isChild_def isDirIgnored_def isDirReadable_def closes_def Let_def
      split: sum.splits prod.splits bool.splits)

lemma loadDirEntry_fst:
  "fst (loadDirEntry E p f cs) =
     fst (isDirOrSymlinkToDir E p f) @
       (if snd (snd (isDirOrSymlinkToDir E p f)) = None
        then fst (isChild E p f (fst (snd (isDirOrSymlinkToDir E p f)))) else [])"
proof -
  obtain t1 d e where r: "isDirOrSymlinkToDir E p f = (t1, d, e)"
    by (cases "isDirOrSymlinkToDir E p f") auto
  obtain t2 b where c: "isChild E p f d = (t2, b)"
    by (cases "isChild E p f d") auto
  show ?thesis
    by (cases cs; cases e; cases b) (simp_all add: loadDirEntry_def r c)
qed

lemma loadDirEntry_quiet:
  "sent (fst (loadDirEntry E p f cs)) = [] \<and> listed (fst (loadDirEntry E p f cs)) = []
   \<and> closes (fst (loadDirEntry E p f cs)) = 0"
  using isDirOrSymlinkToDir_quiet [of E p f]
    isChild_quiet [of E p f "fst (snd (isDirOrSymlinkToDir E p f))"]
  by (simp add: loadDirEntry_fst sent_append listed_append closes_append closes_def)

lemma loadDirLoop_Cons:
  "loadDirLoop E p (f # files) cs =
     (fst (loadDirEntry E p f cs) @ fst (loadDirLoop E p files (snd (loadDirEntry E p f cs))),
      snd (loadDirLoop E p files (snd (loadDirEntry E p f cs))))"
  by (simp split: prod.splits)

lemma loadDirLoop_quiet:
  "sent (fst (loadDirLoop E p files cs)) = [] \<and> listed (fst (loadDirLoop E p files cs)) = []
   \<and> closes (fst (loadDirLoop E p files cs)) = 0"
proof (induction files arbitrary: cs)
  case Nil
  show ?case by (simp add: closes_def)
next
  case (Cons f files)
  show ?case
    using loadDirEntry_quiet [of E p f cs] Cons.IH [of "snd (loadDirEntry E p f cs)"]
    by (simp only: loadDirLoop_Cons fst_conv sent_append listed_append closes_append) simp
qed

subsection \<open>The results of \<open>loadDir\<close>\<close>

lemma isChild_snd: "snd (isChild E p f True) = passesPolicy E p f"
  by (simp add: isChild_def isDirIgnored_def isDirReadable_def passesPolicy_def isHidden_def
      hasMarker_def isReadable_def Let_def split: sum.splits)

lemma isChild_False: "isChild E p f False = ([], False)"
  by (simp add: isChild_def)

lemma loadDirEntry_snd:
  "snd (loadDirEntry E p f (children, stats)) =
     (if isIncluded E p f then (children @ [filepathJoin E [p, fi_Name f]], stats)
      else if isLeafEntry E p f then (children, leafStats E f stats)
      else (children, stats))"
proof -
  obtain t1 d e where r: "isDirOrSymlinkToDir E p f = (t1, d, e)"
    by (cases "isDirOrSymlinkToDir E p f") auto
  obtain t2 b where c: "isChild E p f d = (t2, b)"
    by (cases "isChild E p f d") auto
  show ?thesis
  proof (cases e)
    case (Some err)
    then show ?thesis
      by (simp add: loadDirEntry_def r isIncluded_def isLeafEntry_def isCandidate_def
          isFileEntry_def)
  next
    case None
    show ?thesis
    proof (cases d)
      case True
      with c have c': "isChild E p f True = (t2, b)"
        by simp
      then have "b = passesPolicy E p f"
        using isChild_snd [of E p f] by simp
      with None True show ?thesis
        by (simp add: loadDirEntry_def r c' isIncluded_def isLeafEntry_def isCandidate_def
            isFileEntry_def)
    next
      case False
      with None show ?thesis
        by (simp add: loadDirEntry_def r isChild_False isIncluded_def isLeafEntry_def
            isCandidate_def isFileEntry_def)
    qed
  qed
qed

lemma loadDirLoop_snd:
  "snd (loadDirLoop E p files (children, stats)) =
     (children @ map (\<lambda>f. filepathJoin E [p, fi_Name f]) (filter (isIncluded E p) files),
      fold (leafStats E) (filter (isLeafEntry E p) files) stats)"
proof (induction files arbitrary: children stats)
  case Nil
  show ?case by simp
next
  case (Cons f files)
  have excl: "isIncluded E p f \<Longrightarrow> \<not> isLeafEntry E p f"
    by (auto simp add: isIncluded_def isLeafEntry_def isCandidate_def isFileEntry_def)
  show ?case
  proof (cases "isIncluded E p f")
    case True
    with excl show ?thesis
      by (simp only: loadDirLoop_Cons snd_conv loadDirEntry_snd Cons.IH if_True) simp
  next
    case False
    show ?thesis
    proof (cases "isLeafEntry E p f")
      case True
      with False show ?thesis
        by (simp only: loadDirLoop_Cons snd_conv loadDirEntry_snd Cons.IH if_True if_False) simp
    next
      case nl: False
      with False show ?thesis
        by (simp only: loadDirLoop_Cons snd_conv loadDirEntry_snd Cons.IH if_False) simp
    qed
  qed
qed

lemma loadDir_stat_fails:
  "osStat E p = Inl e \<Longrightarrow> loadDir E ctx p = ([EvStat p], [], zeroStats, Some e)"
  by (simp add: loadDir_def)

lemma loadDir_list_fails:
  "osStat E p = Inr di \<Longrightarrow> ioutilReadDir E p = Inl e \<Longrightarrow>
   loadDir E ctx p =
     ([EvStat p, EvReadDir p], [], zeroStats\<lparr>ModTime := fi_ModTime di\<rparr>, Some e)"
  by (simp add: loadDir_def)

lemma loadDir_ok:
  "osStat E p = Inr di \<Longrightarrow> ioutilReadDir E p = Inr files \<Longrightarrow>
   loadDir E ctx p =
     ([EvStat p, EvReadDir p]
        @ fst (loadDirLoop E p files ([], zeroStats\<lparr>ModTime := fi_ModTime di\<rparr>)),
      map (\<lambda>f. filepathJoin E [p, fi_Name f]) (filter (isIncluded E p) files),
      fold (leafStats E) (filter (isLeafEntry E p) files) (zeroStats\<lparr>ModTime := fi_ModTime di\<rparr>),
      None)"
  using loadDirLoop_snd [of E p files "[]" "zeroStats\<lparr>ModTime := fi_ModTime di\<rparr>"]
  by (cases "loadDirLoop E p files ([], zeroStats\<lparr>ModTime := fi_ModTime di\<rparr>)")
    (simp add: loadDir_def)

lemma loadDir_cases:
  obtains (stat) e where "osStat E p = Inl e"
  | (list) di e where "osStat E p = Inr di" "ioutilReadDir E p = Inl e"
  | (ok) di files where "osStat E p = Inr di" "ioutilReadDir E p = Inr files"
  by (cases "osStat E p"; cases "ioutilReadDir E p") auto

lemma dirError_None:
  "dirError E ctx p = None \<longleftrightarrow> (\<exists>di files. osStat E p = Inr di \<and> ioutilReadDir E p = Inr files)"
  by (cases E p rule: loadDir_cases)
    (simp_all add: dirError_def loadDir_stat_fails loadDir_list_fails loadDir_ok)


lemma dirChildren_eq:
  "dirError E ctx p = None \<Longrightarrow>
   dirChildren E ctx p =
     map (\<lambda>f. filepathJoin E [p, fi_Name f]) (filter (isIncluded E p) (dirListing E p))"
  by (cases E p rule: loadDir_cases)
    (simp_all add: dirError_def dirChildren_def dirListing_def loadDir_stat_fails
      loadDir_list_fails loadDir_ok)

lemma dirRecord_eq:
  "dirError E ctx p = None \<Longrightarrow>
   dirRecord E ctx p =
     (fold (leafStats E) (filter (isLeafEntry E p) (dirListing E p))
        (zeroStats\<lparr>ModTime := dirModTime E p\<rparr>))\<lparr>Path := filepathClean E p\<rparr>"
  by (cases E p rule: loadDir_cases)
    (simp_all add: dirError_def dirRecord_def dirListing_def dirModTime_def loadDir_stat_fails
      loadDir_list_fails loadDir_ok)

lemma leafStats_ModTime: "ModTime (leafStats E f s) = max (ModTime s) (fi_ModTime f)"
  by (simp add: leafStats_def After_def Let_def max_def)




lemma fold_leafStats_ModTime:
  "ModTime (fold (leafStats E) fs s) = Max (insert (ModTime s) (fi_ModTime ` set fs))"
proof (induction fs arbitrary: s)
  case Nil
  show ?case by simp
next
  case (Cons f fs)
  have "Max (insert (max (ModTime s) (fi_ModTime f)) (fi_ModTime ` set fs))
      = Max (insert (ModTime s) (insert (fi_ModTime f) (fi_ModTime ` set fs)))"
    by (cases "fs = []") (simp_all add: max.assoc max.commute max.left_commute)
  then show ?case
    by (simp add: Cons.IH leafStats_ModTime)
qed




subsection \<open>The loop over the children\<close>

lemma rangeChildren_ConsE:
  assumes "rangeChildren walk (c # cs) = Some (t, res)"
  obtains (fail) e where "walk c = Some (t, Some e)" "res = Some e"
  | (continue) tc t' where "walk c = Some (tc, None)" "rangeChildren walk cs = Some (t', res)"
      "t = tc @ t'"
  using assms by (auto split: option.splits prod.splits)

lemma rangeChildren_mono:
  assumes "\<And>c x. c \<in> set cs \<Longrightarrow> walk c = Some x \<Longrightarrow> walk' c = Some x"
    and "rangeChildren walk cs = Some y"
  shows "rangeChildren walk' cs = Some y"
  using assms
proof (induction cs arbitrary: y)
  case Nil
  then show ?case by simp
next
  case (Cons c cs)
  obtain t res where y: "y = (t, res)" by (cases y)
  from Cons.prems(2) [unfolded y] show ?case
  proof (cases rule: rangeChildren_ConsE)
    case (fail e)
    with Cons.prems(1) [of c "(t, Some e)"] show ?thesis
      by (simp add: y)
  next
    case (continue tc t')
    from Cons.prems(1) [of c "(tc, None)"] continue have "walk' c = Some (tc, None)"
      by simp
    moreover have "rangeChildren walk' cs = Some (t', res)"
      using Cons.IH [of "(t', res)"] Cons.prems(1) continue by simp
    ultimately show ?thesis
      using continue by (simp add: y)
  qed
qed

lemma rangeChildren_total:
  assumes "\<And>c. c \<in> set cs \<Longrightarrow> walk c \<noteq> None"
  shows "rangeChildren walk cs \<noteq> None"
  using assms
proof (induction cs)
  case Nil
  show ?case by simp
next
  case (Cons c cs)
  from Cons.prems [of c] obtain tc rc where "walk c = Some (tc, rc)"
    by (cases "walk c") auto
  moreover from Cons have "rangeChildren walk cs \<noteq> None"
    by simp
  ultimately show ?case
    by (cases rc) auto
qed

lemma rangeChildren_events:
  assumes "rangeChildren walk cs = Some (t, res)"
    and "\<And>c tc rc. c \<in> set cs \<Longrightarrow> walk c = Some (tc, rc) \<Longrightarrow> \<forall>e \<in> set tc. P c e"
  shows "\<forall>e \<in> set t. \<exists>c \<in> set cs. P c e"
  using assms
proof (induction cs arbitrary: t)
  case Nil
  then show ?case by simp
next
  case (Cons c cs)
  from Cons.prems(1) show ?case
  proof (cases rule: rangeChildren_ConsE)
    case (fail e)
    with Cons.prems(2) [of c t "Some e"] show ?thesis
      by auto
  next
    case (continue tc t')
    from Cons.prems(2) [of c tc None] continue have "\<forall>e \<in> set tc. P c e"
      by simp
    moreover have "\<forall>e \<in> set t'. \<exists>c \<in> set cs. P c e"
      using Cons.IH [of t'] Cons.prems(2) continue by simp
    ultimately show ?thesis
      using continue by auto
  qed
qed

lemma rangeChildren_ok:
  assumes "rangeChildren walk cs = Some (t, None)" and "c \<in> set cs"
  shows "\<exists>tc pre post. walk c = Some (tc, None) \<and> t = pre @ tc @ post"
  using assms
proof (induction cs arbitrary: t)
  case Nil
  then show ?case by simp
next
  case (Cons d cs)
  from Cons.prems(1) show ?case
  proof (cases rule: rangeChildren_ConsE)
    case (fail e)
    then show ?thesis by simp
  next
    case (continue td t')
    show ?thesis
    proof (cases "c = d")
      case True
      with continue have "walk c = Some (td, None) \<and> t = [] @ td @ t'"
        by simp
      then show ?thesis by blast
    next
      case False
      with Cons.prems(2) have "c \<in> set cs" by simp
      with Cons.IH [of t'] continue obtain tc pre post
        where "walk c = Some (tc, None)" "t' = pre @ tc @ post"
        by blast
      with continue have "walk c = Some (tc, None) \<and> t = (td @ pre) @ tc @ post"
        by simp
      then show ?thesis by blast
    qed
  qed
qed


lemma walkFolder_Suc:
  "walkFolder (Suc n) E ctx r p =
     (case dirError E ctx p of
        Some err \<Rightarrow> Some (fst (loadDir E ctx p), Some err)
      | None \<Rightarrow>
          (case rangeChildren (walkFolder n E ctx r) (dirChildren E ctx p) of
             None \<Rightarrow> None
           | Some (t2, Some err) \<Rightarrow> Some (fst (loadDir E ctx p) @ t2, Some err)
           | Some (t2, None) \<Rightarrow>
               Some (fst (loadDir E ctx p) @ t2 @ [EvSend (dirRecord E ctx p)], None)))"
  by (cases "loadDir E ctx p")
    (simp add: dirError_def dirChildren_def dirRecord_def Let_def
      split: option.splits prod.splits)

lemma walkFolder_SucE:
  assumes "walkFolder (Suc n) E ctx r p = Some (t, res)"
  obtains (load) e where "dirError E ctx p = Some e" "t = fst (loadDir E ctx p)" "res = Some e"
  | (child) e t2 where "dirError E ctx p = None"
      "rangeChildren (walkFolder n E ctx r) (dirChildren E ctx p) = Some (t2, Some e)"
      "t = fst (loadDir E ctx p) @ t2" "res = Some e"
  | (ok) t2 where "dirError E ctx p = None"
      "rangeChildren (walkFolder n E ctx r) (dirChildren E ctx p) = Some (t2, None)"
      "t = fst (loadDir E ctx p) @ t2 @ [EvSend (dirRecord E ctx p)]" "res = None"
  using assms
  by (simp only: walkFolder_Suc) (auto split: option.splits prod.splits)

lemma walkFolder_Suc_mono:
  "walkFolder n E ctx r p = Some x \<Longrightarrow> walkFolder (Suc n) E ctx r p = Some x"
proof (induction n arbitrary: p x)
  case 0
  then show ?case by simp
next
  case (Suc n)
  have "rangeChildren (walkFolder (Suc n) E ctx r) cs = Some y"
    if "rangeChildren (walkFolder n E ctx r) cs = Some y" for cs y
    using that Suc.IH by (rule rangeChildren_mono [rotated])
  with Suc.prems show ?case
    by (simp only: walkFolder_Suc [of "Suc n"] walkFolder_Suc [of n])
      (auto split: option.splits prod.splits)
qed

lemma walkFolder_mono:
  "n \<le> m \<Longrightarrow> walkFolder n E ctx r p = Some x \<Longrightarrow> walkFolder m E ctx r p = Some x"
  by (induction m) (auto simp add: le_Suc_eq walkFolder_Suc_mono simp del: walkFolder.simps)

subsection \<open>The walk\<close>

lemma loadDir_ctx: "loadDir E ctx p = loadDir E ctx' p"
  by (simp add: loadDir_def)

lemma walkFolder_ctx: "walkFolder n E ctx r p = walkFolder n E ctx' r' p"
proof (induction n arbitrary: p)
  case 0
  show ?case by simp
next
  case (Suc n)
  then have w: "walkFolder n E ctx r = walkFolder n E ctx' r'"
    by (intro ext)
  have l: "loadDir E ctx p = loadDir E ctx' p"
    by (rule loadDir_ctx)
  have d: "dirError E ctx p = dirError E ctx' p" "dirChildren E ctx p = dirChildren E ctx' p"
    "dirRecord E ctx p = dirRecord E ctx' p"
    by (simp_all only: dirError_def dirChildren_def dirRecord_def l)
  show ?case
    by (simp only: walkFolder_Suc w l d)
qed

lemma closes_0: "closes t = 0 \<longleftrightarrow> EvClose \<notin> set t"
  by (auto simp add: closes_def filter_empty_conv)

lemma loadDir_trace:
  "sent (fst (loadDir E ctx p)) = [] \<and> closes (fst (loadDir E ctx p)) = 0"
proof (cases E p rule: loadDir_cases)
  case (stat e)
  then show ?thesis by (simp add: loadDir_stat_fails closes_def)
next
  case (list di e)
  then show ?thesis by (simp add: loadDir_list_fails closes_def)
next
  case (ok di files)
  then show ?thesis
    using loadDirLoop_quiet [of E p files "([], zeroStats\<lparr>ModTime := fi_ModTime di\<rparr>)"]
    by (simp add: loadDir_ok sent_append closes_def)
qed

lemma loadDir_no_close: "EvClose \<notin> set (fst (loadDir E ctx p))"
  using loadDir_trace [of E ctx p] by (simp add: closes_0)

lemma loadDir_listed: "set (listed (fst (loadDir E ctx p))) \<subseteq> {p}"
proof (cases E p rule: loadDir_cases)
  case (stat e)
  then show ?thesis by (simp add: loadDir_stat_fails)
next
  case (list di e)
  then show ?thesis by (simp add: loadDir_list_fails)
next
  case (ok di files)
  then show ?thesis
    using loadDirLoop_quiet [of E p files "([], zeroStats\<lparr>ModTime := fi_ModTime di\<rparr>)"]
    by (simp add: loadDir_ok listed_append)
qed

lemma walkFolder_no_close:
  "walkFolder n E ctx r p = Some (t, res) \<Longrightarrow> EvClose \<notin> set t"
proof (induction n arbitrary: p t res)
  case 0
  then show ?case by simp
next
  case (Suc n)
  have ch: "EvClose \<notin> set t2"
    if "rangeChildren (walkFolder n E ctx r) cs = Some (t2, res2)" for cs t2 res2
    using rangeChildren_events [OF that, of "\<lambda>c e. e \<noteq> EvClose"] Suc.IH by blast
  from Suc.prems show ?case
    by (cases rule: walkFolder_SucE) (auto simp add: loadDir_no_close dest: ch)
qed

lemma childRel_iff: "(p, c) \<in> childRel E ctx \<longleftrightarrow> c \<in> set (dirChildren E ctx p)"
  by (simp add: childRel_def)

lemma walkFolder_ok_here:
  assumes "walkFolder n E ctx r p = Some (t, None)"
  shows "dirError E ctx p = None \<and> (\<exists>pre. sent t = pre @ [dirRecord E ctx p])"
proof (cases n)
  case 0
  with assms show ?thesis by simp
next
  case (Suc m)
  from assms [unfolded Suc] show ?thesis
  proof (cases rule: walkFolder_SucE)
    case (ok t2)
    then have "sent t = sent (fst (loadDir E ctx p) @ t2) @ [dirRecord E ctx p]"
      by (simp add: sent_append)
    with ok show ?thesis by blast
  qed simp_all
qed

lemma walkFolder_ok_child:
  assumes "walkFolder n E ctx r p = Some (t, None)" and "(p, c) \<in> childRel E ctx"
  shows "\<exists>tc pre post. walkFolder n E ctx r c = Some (tc, None)
           \<and> sent t = pre @ sent tc @ post @ [dirRecord E ctx p]"
proof (cases n)
  case 0
  with assms show ?thesis by simp
next
  case (Suc m)
  from assms(1) [unfolded Suc] show ?thesis
  proof (cases rule: walkFolder_SucE)
    case (ok t2)
    from assms(2) have "c \<in> set (dirChildren E ctx p)"
      by (simp add: childRel_iff)
    from rangeChildren_ok [OF ok(2) this] obtain tc pre post
      where c: "walkFolder m E ctx r c = Some (tc, None)" and t2: "t2 = pre @ tc @ post"
      by blast
    from c have "walkFolder n E ctx r c = Some (tc, None)"
      unfolding Suc by (rule walkFolder_Suc_mono)
    moreover have "sent t = sent (fst (loadDir E ctx p) @ pre) @ sent tc @ sent post
        @ [dirRecord E ctx p]"
      by (simp add: ok(3) t2 sent_append)
    ultimately show ?thesis by blast
  qed simp_all
qed

lemma walkFolder_ok_reach:
  assumes "(p, q) \<in> (childRel E ctx)\<^sup>*" and "walkFolder n E ctx r p = Some (t, None)"
  shows "\<exists>tq pre post. walkFolder n E ctx r q = Some (tq, None) \<and> sent t = pre @ sent tq @ post"
  using assms
proof (induction rule: rtrancl_induct)
  case base
  then have "walkFolder n E ctx r p = Some (t, None) \<and> sent t = [] @ sent t @ []"
    by simp
  then show ?case by blast
next
  case (step y z)
  then obtain ty pre post
    where y: "walkFolder n E ctx r y = Some (ty, None)" and t: "sent t = pre @ sent ty @ post"
    by blast
  from walkFolder_ok_child [OF y step.hyps(2)] obtain tz pre' post'
    where z: "walkFolder n E ctx r z = Some (tz, None)"
      and ty: "sent ty = pre' @ sent tz @ post' @ [dirRecord E ctx y]"
    by blast
  have "sent t = (pre @ pre') @ sent tz @ (post' @ [dirRecord E ctx y] @ post)"
    by (simp add: t ty)
  with z show ?case by blast
qed

lemma sent_set: "s \<in> set (sent t) \<longleftrightarrow> EvSend s \<in> set t"
  by (induction t rule: sent.induct) auto

lemma listed_set: "q \<in> set (listed t) \<longleftrightarrow> EvReadDir q \<in> set t"
  by (induction t rule: listed.induct) auto

lemma walkFolder_events:
  assumes "walkFolder n E ctx r p = Some (t, res)" and "e \<in> set t"
  shows "\<exists>q. (p, q) \<in> (childRel E ctx)\<^sup>* \<and>
           (e \<in> set (fst (loadDir E ctx q)) \<or>
            (e = EvSend (dirRecord E ctx q) \<and> (\<exists>tq. walkFolder n E ctx r q = Some (tq, None))))"
  using assms
proof (induction n arbitrary: p t res e)
  case 0
  then show ?case by simp
next
  case (Suc n)
  let ?from = "\<lambda>p e. \<exists>q. (p, q) \<in> (childRel E ctx)\<^sup>* \<and>
           (e \<in> set (fst (loadDir E ctx q)) \<or>
            (e = EvSend (dirRecord E ctx q) \<and> (\<exists>tq. walkFolder (Suc n) E ctx r q = Some (tq, None))))"
  have here: "?from p e" if "e \<in> set (fst (loadDir E ctx p))" for e
    using that by blast
  have ch: "?from p e"
    if rc: "rangeChildren (walkFolder n E ctx r) (dirChildren E ctx p) = Some (t2, res2)"
      and e: "e \<in> set t2" for t2 res2 e
  proof -
    have inner: "\<forall>e \<in> set tc. ?from c e"
      if "walkFolder n E ctx r c = Some (tc, rc)" for c tc rc
    proof
      fix e assume "e \<in> set tc"
      from Suc.IH [OF that this] show "?from c e"
        by (blast intro: walkFolder_Suc_mono)
    qed
    have "\<forall>e \<in> set t2. \<exists>c \<in> set (dirChildren E ctx p). ?from c e"
      by (rule rangeChildren_events [OF rc, of "\<lambda>c e. ?from c e"], rule inner, assumption)
    with e obtain c q where c: "c \<in> set (dirChildren E ctx p)"
      and q: "(c, q) \<in> (childRel E ctx)\<^sup>*"
        "e \<in> set (fst (loadDir E ctx q)) \<or>
            (e = EvSend (dirRecord E ctx q) \<and> (\<exists>tq. walkFolder (Suc n) E ctx r q = Some (tq, None)))"
      by blast
    from c q(1) have "(p, q) \<in> (childRel E ctx)\<^sup>*"
      by (simp add: childRel_iff converse_rtrancl_into_rtrancl)
    with q(2) show ?thesis by blast
  qed
  from Suc.prems(1) show ?case
  proof (cases rule: walkFolder_SucE)
    case (load err)
    with Suc.prems(2) have "e \<in> set (fst (loadDir E ctx p))" by simp
    then show ?thesis by (rule here)
  next
    case (child err t2)
    with Suc.prems(2) consider "e \<in> set (fst (loadDir E ctx p))" | "e \<in> set t2"
      by auto
    then show ?thesis
    proof cases
      case 1
      then show ?thesis by (rule here)
    next
      case 2
      with child(2) show ?thesis by (rule ch)
    qed
  next
    case (ok t2)
    with Suc.prems(2) consider "e \<in> set (fst (loadDir E ctx p))" | "e \<in> set t2"
      | "e = EvSend (dirRecord E ctx p)"
      by auto
    then show ?thesis
    proof cases
      case 1
      then show ?thesis by (rule here)
    next
      case 2
      with ok(2) show ?thesis by (rule ch)
    next
      case 3
      with Suc.prems(1) ok(4) show ?thesis by blast
    qed
  qed
qed

lemma walkFolder_sent:
  assumes "walkFolder n E ctx r p = Some (t, res)" and "s \<in> set (sent t)"
  shows "\<exists>q tq. (p, q) \<in> (childRel E ctx)\<^sup>* \<and> walkFolder n E ctx r q = Some (tq, None)
           \<and> s = dirRecord E ctx q"
proof -
  from assms(2) have "EvSend s \<in> set t"
    by (simp add: sent_set)
  from walkFolder_events [OF assms(1) this] obtain q
    where q: "(p, q) \<in> (childRel E ctx)\<^sup>*"
      "EvSend s \<in> set (fst (loadDir E ctx q)) \<or>
         (EvSend s = EvSend (dirRecord E ctx q) \<and> (\<exists>tq. walkFolder n E ctx r q = Some (tq, None)))"
    by blast
  have "EvSend s \<notin> set (fst (loadDir E ctx q))"
    using loadDir_trace [of E ctx q] sent_set [of s "fst (loadDir E ctx q)"] by simp
  with q show ?thesis by auto
qed

lemma walkFolder_listed:
  assumes "walkFolder n E ctx r p = Some (t, res)" and "q \<in> set (listed t)"
  shows "(p, q) \<in> (childRel E ctx)\<^sup>*"
proof -
  from assms(2) have "EvReadDir q \<in> set t"
    by (simp add: listed_set)
  from walkFolder_events [OF assms(1) this] obtain q'
    where q': "(p, q') \<in> (childRel E ctx)\<^sup>*" "EvReadDir q \<in> set (fst (loadDir E ctx q'))"
    by auto
  from q'(2) have "q \<in> set (listed (fst (loadDir E ctx q')))"
    by (simp add: listed_set)
  with loadDir_listed [of E ctx q'] have "q = q'" by auto
  with q'(1) show ?thesis by simp
qed



lemma uniform_fuel:
  assumes "\<And>c. c \<in> set cs \<Longrightarrow> \<exists>n. walkFolder n E ctx r c \<noteq> None"
  shows "\<exists>N. \<forall>c \<in> set cs. walkFolder N E ctx r c \<noteq> None"
  using assms
proof (induction cs)
  case Nil
  show ?case by simp
next
  case (Cons d cs)
  then obtain N where N: "\<forall>c \<in> set cs. walkFolder N E ctx r c \<noteq> None"
    by auto
  from Cons.prems [of d] obtain n where n: "walkFolder n E ctx r d \<noteq> None"
    by auto
  have "walkFolder (max n N) E ctx r c \<noteq> None" if "c \<in> set (d # cs)" for c
  proof (cases "c = d")
    case True
    with n walkFolder_mono [of n "max n N" E ctx r d] show ?thesis by auto
  next
    case False
    with that N have "walkFolder N E ctx r c \<noteq> None" by simp
    with walkFolder_mono [of N "max n N" E ctx r c] show ?thesis by auto
  qed
  then show ?case by blast
qed

lemma walkFolder_terminates:
  assumes "wf ((reachRel E ctx root)\<inverse>)" and "(root, p) \<in> (childRel E ctx)\<^sup>*"
  shows "\<exists>n. walkFolder n E ctx r p \<noteq> None"
  using assms(1) assms(2)
proof (induction p rule: wf_induct_rule)
  case (less p)
  have "\<exists>n. walkFolder n E ctx r c \<noteq> None" if "c \<in> set (dirChildren E ctx p)" for c
  proof -
    from that less.prems have "(c, p) \<in> (reachRel E ctx root)\<inverse>"
      by (simp add: reachRel_def childRel_iff)
    moreover from that less.prems have "(root, c) \<in> (childRel E ctx)\<^sup>*"
      by (simp add: childRel_iff rtrancl_into_rtrancl)
    ultimately show ?thesis by (rule less.IH)
  qed
  from uniform_fuel [OF this] obtain N
    where "\<forall>c \<in> set (dirChildren E ctx p). walkFolder N E ctx r c \<noteq> None"
    by blast
  then have "rangeChildren (walkFolder N E ctx r) (dirChildren E ctx p) \<noteq> None"
    by (intro rangeChildren_total) simp
  then have "walkFolder (Suc N) E ctx r p \<noteq> None"
    by (simp only: walkFolder_Suc) (auto split: option.splits)
  then show ?case by blast
qed

lemma reachRel_finite:
  assumes "finite {p. (root, p) \<in> (childRel E ctx)\<^sup>*}"
  shows "finite (reachRel E ctx root)"
proof (rule finite_subset)
  show "reachRel E ctx root
      \<subseteq> {p. (root, p) \<in> (childRel E ctx)\<^sup>*} \<times> {p. (root, p) \<in> (childRel E ctx)\<^sup>*}"
    by (auto simp add: reachRel_def rtrancl_into_rtrancl)
  from assms show "finite ({p. (root, p) \<in> (childRel E ctx)\<^sup>*} \<times> {p. (root, p) \<in> (childRel E ctx)\<^sup>*})"
    by simp
qed

section \<open>Properties of the walk\<close>

lemma music_walk:
  "walkDirTree 5 musicEnv \<lparr>cancelled = False\<rparr> ''/r'' = Some (musicEvents @ [EvClose], None)"
  by code_simp

lemma music_children:
  "dirChildren musicEnv \<lparr>cancelled = False\<rparr> ''/r'' = [''/r/a'']"
  by code_simp

lemma dirRecord_Path: "Path (dirRecord E ctx p) = filepathClean E p"
  by (cases "loadDir E ctx p") (simp add: dirRecord_def)

lemma walkDirTree_SomeE:
  assumes "walkDirTree n E ctx root = Some (t, res)"
  obtains t0 where "walkFolder n E ctx root root = Some (t0, res)" "t = t0 @ [EvClose]"
  using assms by (auto simp add: walkDirTree_def split: option.splits)

lemma walkDirTree_closes:
  assumes "walkDirTree n E ctx root = Some (t, res)"
  shows "closes t = 1 \<and> last t = EvClose"
proof -
  from assms obtain t0 where t0: "walkFolder n E ctx root root = Some (t0, res)"
    and t: "t = t0 @ [EvClose]"
    by (rule walkDirTree_SomeE)
  from walkFolder_no_close [OF t0] have "closes t0 = 0"
    by (simp add: closes_0)
  then show ?thesis
    by (simp add: t closes_append) (simp add: closes_def)
qed

lemma sent_record:
  assumes "walkDirTree n E ctx root = Some (t, res)" and "s \<in> set (sent t)"
  shows "\<exists>q. (root, q) \<in> (childRel E ctx)\<^sup>* \<and> dirError E ctx q = None \<and> s = dirRecord E ctx q"
proof -
  from assms(1) obtain t0 where t0: "walkFolder n E ctx root root = Some (t0, res)"
    and t: "t = t0 @ [EvClose]"
    by (rule walkDirTree_SomeE)
  from assms(2) have "s \<in> set (sent t0)"
    by (simp add: t sent_append)
  from walkFolder_sent [OF t0 this] obtain q tq
    where q: "(root, q) \<in> (childRel E ctx)\<^sup>*" "walkFolder n E ctx root q = Some (tq, None)"
      "s = dirRecord E ctx q"
    by blast
  from q(2) have "dirError E ctx q = None"
    by (simp add: walkFolder_ok_here)
  with q show ?thesis by blast
qed

lemma set_filter_Collect: "set (filter P xs) = {x \<in> set xs. P x}"
  by auto

lemma dirRecord_ModTime:
  assumes "dirError E ctx q = None"
  shows "ModTime (dirRecord E ctx q) =
     Max (insert (dirModTime E q) (fi_ModTime ` {f \<in> set (dirListing E q). isLeafEntry E q f}))"
  by (simp add: dirRecord_eq [OF assms] fold_leafStats_ModTime set_filter_Collect)




lemma music_walk_cancelled:
  "walkDirTree 5 musicEnv \<lparr>cancelled = True\<rparr> ''/r'' = Some (musicEvents @ [EvClose], None)"
  by code_simp

lemma music_sent: "sent (musicEvents @ [EvClose]) =
    [\<lparr>Path = ''/r/a'', ModTime = 7, HasImages = False, HasPlaylist = False,
        AudioFilesCount = 1\<rparr>, musicRecord]"
  by (simp add: musicEvents_def musicRecord_def)

lemma hidden_walk:
  "walkDirTree 5 hiddenEnv \<lparr>cancelled = False\<rparr> ''/m'' = Some (hiddenEvents @ [EvClose], None)"
  by code_simp

text \<open>
  C3. The walker never reads the cancellation token. It hands the context to the logger
  only, so a walk calls the file system, sends the records and returns the error in the
  same way whether or not the token is signalled; a walk that returns has closed the
  channel once, as its last operation.
\<close>

theorem walk_ignores_cancellation:
  "walkDirTree n E ctx root = walkDirTree n E ctx' root
   \<and> (walkDirTree n E ctx root = Some (t, res) \<longrightarrow> closes t = 1 \<and> last t = EvClose)"
proof
  show "walkDirTree n E ctx root = walkDirTree n E ctx' root"
    by (simp only: walkDirTree_def walkFolder_ctx [of n E ctx root root ctx' root])
  show "walkDirTree n E ctx root = Some (t, res) \<longrightarrow> closes t = 1 \<and> last t = EvClose"
    by (blast dest: walkDirTree_closes)
qed

theorem walk_ignores_cancellation_witness:
  "walkDirTree 5 musicEnv \<lparr>cancelled = True\<rparr> ''/r''
     = walkDirTree 5 musicEnv \<lparr>cancelled = False\<rparr> ''/r''
   \<and> walkDirTree 5 musicEnv \<lparr>cancelled = True\<rparr> ''/r'' = Some (musicEvents @ [EvClose], None)
   \<and> closes (musicEvents @ [EvClose]) = 1
   \<and> last (musicEvents @ [EvClose]) = EvClose"
  using walk_ignores_cancellation [of 5 musicEnv "\<lparr>cancelled = True\<rparr>" "''/r''"
      "\<lparr>cancelled = False\<rparr>" "musicEvents @ [EvClose]" None]
    music_walk_cancelled
  by simp

text \<open>
  The claim of C3 fails: with the token signalled before the walk starts, the walk of
  \<open>/r\<close> still lists the subdirectory \<open>/r/a\<close>, sends both records and returns no error.
\<close>

theorem cancellation_counterexample:
  "walkDirTree 5 musicEnv \<lparr>cancelled = True\<rparr> ''/r'' = Some (musicEvents @ [EvClose], None)
   \<and> listed (musicEvents @ [EvClose]) = [''/r'', ''/r/a'']
   \<and> sent (musicEvents @ [EvClose]) =
       [\<lparr>Path = ''/r/a'', ModTime = 7, HasImages = False, HasPlaylist = False,
          AudioFilesCount = 1\<rparr>,
        \<lparr>Path = ''/r'', ModTime = 50, HasImages = True, HasPlaylist = False,
          AudioFilesCount = 1\<rparr>]"
  by code_simp

text \<open>
  C4. The modification time of every record sent is the maximum of the directory's own
  modification time and those of its direct entries that reach the else branch of the
  loop: the files, and the subdirectory candidates that the policy excludes.
\<close>

theorem modTime_is_leaf_maximum:
  assumes "walkDirTree n E ctx root = Some (t, res)" and "s \<in> set (sent t)"
  shows "\<exists>q. (root, q) \<in> (childRel E ctx)\<^sup>* \<and> dirError E ctx q = None
           \<and> Path s = filepathClean E q
           \<and> ModTime s = Max (insert (dirModTime E q)
               (fi_ModTime ` {f \<in> set (dirListing E q).
                  isFileEntry E q f \<or> (isCandidate E q f \<and> \<not> passesPolicy E q f)}))"
proof -
  from sent_record [OF assms] obtain q
    where q: "(root, q) \<in> (childRel E ctx)\<^sup>*" "dirError E ctx q = None" "s = dirRecord E ctx q"
    by blast
  from dirRecord_ModTime [OF q(2)] q show ?thesis
    by (auto simp add: dirRecord_Path isLeafEntry_def)
qed

theorem modTime_is_leaf_maximum_witness:
  "walkDirTree 5 musicEnv \<lparr>cancelled = False\<rparr> ''/r'' = Some (musicEvents @ [EvClose], None)
   \<and> musicRecord \<in> set (sent (musicEvents @ [EvClose]))
   \<and> (\<exists>q. (''/r'', q) \<in> (childRel musicEnv \<lparr>cancelled = False\<rparr>)\<^sup>*
         \<and> dirError musicEnv \<lparr>cancelled = False\<rparr> q = None
         \<and> Path musicRecord = filepathClean musicEnv q
         \<and> ModTime musicRecord = Max (insert (dirModTime musicEnv q)
               (fi_ModTime ` {f \<in> set (dirListing musicEnv q).
                  isFileEntry musicEnv q f \<or> (isCandidate musicEnv q f \<and> \<not> passesPolicy musicEnv q f)})))"
proof -
  have s: "musicRecord \<in> set (sent (musicEvents @ [EvClose]))"
    by (simp add: music_sent)
  from modTime_is_leaf_maximum [OF music_walk s] music_walk s show ?thesis
    by simp
qed

text \<open>
  The claim of C4 fails: the hidden folder \<open>.old.mp3\<close> of \<open>/m\<close>, modified at 40, is a
  directory and is not walked, and the record of \<open>/m\<close> carries 40 where the maximum over
  the directory itself and its files is 5.
\<close>

theorem modTime_counterexample:
  "walkDirTree 5 hiddenEnv \<lparr>cancelled = False\<rparr> ''/m''
     = Some ([EvStat ''/m'', EvReadDir ''/m'',
              EvSend \<lparr>Path = ''/m'', ModTime = 40, HasImages = False, HasPlaylist = False,
                AudioFilesCount = 1\<rparr>,
              EvClose], None)
   \<and> specModTime hiddenEnv ''/m'' = 5"
  by code_simp

text \<open>
  C8. The modification time of every record sent is not earlier than the directory's own
  modification time nor than the modification time of any direct file entry.
\<close>

theorem modTime_lower_bounds:
  assumes "walkDirTree n E ctx root = Some (t, res)" and "s \<in> set (sent t)"
  shows "\<exists>q. (root, q) \<in> (childRel E ctx)\<^sup>* \<and> dirError E ctx q = None
           \<and> Path s = filepathClean E q
           \<and> dirModTime E q \<le> ModTime s
           \<and> (\<forall>f \<in> set (dirListing E q). isFileEntry E q f \<longrightarrow> fi_ModTime f \<le> ModTime s)"
proof -
  from sent_record [OF assms] obtain q
    where q: "(root, q) \<in> (childRel E ctx)\<^sup>*" "dirError E ctx q = None" "s = dirRecord E ctx q"
    by blast
  let ?M = "insert (dirModTime E q) (fi_ModTime ` {f \<in> set (dirListing E q). isLeafEntry E q f})"
  have m: "ModTime s = Max ?M"
    by (simp only: q(3) dirRecord_ModTime [OF q(2)])
  have fin: "finite ?M" by simp
  have "dirModTime E q \<le> ModTime s"
    unfolding m by (rule Max_ge [OF fin]) simp
  moreover have "fi_ModTime f \<le> ModTime s"
    if "f \<in> set (dirListing E q)" "isFileEntry E q f" for f
    unfolding m using that by (intro Max_ge [OF fin]) (simp add: isLeafEntry_def)
  moreover have "Path s = filepathClean E q"
    by (simp add: q(3) dirRecord_Path)
  ultimately show ?thesis
    using q(1,2) by blast
qed

lemma music_listing:
  "dirListing musicEnv ''/r'' =
     [dirEntry ''.hidden'' 50, dirEntry ''a'' 7, dirEntry ''b'' 9,
      fileEntry ''cover.jpg'' 20, linkEntry ''dangling'' 99, fileEntry ''t.mp3'' 30]"
  by code_simp

lemma music_file: "isFileEntry musicEnv ''/r'' (fileEntry ''t.mp3'' 30)"
  by code_simp

theorem modTime_lower_bounds_witness:
  "walkDirTree 5 musicEnv \<lparr>cancelled = False\<rparr> ''/r'' = Some (musicEvents @ [EvClose], None)
   \<and> musicRecord \<in> set (sent (musicEvents @ [EvClose]))
   \<and> (\<exists>q. (''/r'', q) \<in> (childRel musicEnv \<lparr>cancelled = False\<rparr>)\<^sup>*
         \<and> Path musicRecord = filepathClean musicEnv q
         \<and> dirModTime musicEnv q \<le> ModTime musicRecord)
   \<and> fileEntry ''t.mp3'' 30 \<in> set (dirListing musicEnv ''/r'')
   \<and> isFileEntry musicEnv ''/r'' (fileEntry ''t.mp3'' 30)
   \<and> fi_ModTime (fileEntry ''t.mp3'' 30) \<le> ModTime musicRecord"
proof -
  have s: "musicRecord \<in> set (sent (musicEvents @ [EvClose]))"
    by (simp add: music_sent)
  from modTime_lower_bounds [OF music_walk s]
  have "\<exists>q. (''/r'', q) \<in> (childRel musicEnv \<lparr>cancelled = False\<rparr>)\<^sup>*
         \<and> Path musicRecord = filepathClean musicEnv q
         \<and> dirModTime musicEnv q \<le> ModTime musicRecord"
    by blast
  moreover have "fileEntry ''t.mp3'' 30 \<in> set (dirListing musicEnv ''/r'')"
    by (simp add: music_listing)
  moreover have "fi_ModTime (fileEntry ''t.mp3'' 30) \<le> ModTime musicRecord"
    by (simp add: fileEntry_def musicRecord_def)
  ultimately show ?thesis
    using music_walk s music_file by blast
qed

lemma isCandidate_iff:
  "isCandidate E p f \<longleftrightarrow>
     IsDir f \<or> (fi_Mode f AND ModeSymlink \<noteq> 0
       \<and> (\<exists>target. osStat E (filepathJoin E [p, fi_Name f]) = Inr target \<and> IsDir target))"
  by (auto simp add: isCandidate_def isDirOrSymlinkToDir_def Let_def split: sum.splits)


lemma isBrokenLink_iff:
  "isBrokenLink E p f \<longleftrightarrow>
     \<not> IsDir f \<and> fi_Mode f AND ModeSymlink \<noteq> 0
     \<and> (\<exists>e. osStat E (filepathJoin E [p, fi_Name f]) = Inl e)"
  by (auto simp add: isBrokenLink_def isDirOrSymlinkToDir_def Let_def split: sum.splits)

lemma entry_kinds:
  "isBrokenLink E p f \<or> isFileEntry E p f \<or> isCandidate E p f"
  by (cases "isDirOrSymlinkToDir E p f")
    (auto simp add: isBrokenLink_def isFileEntry_def isCandidate_def)

lemma broken_not_counted:
  "isBrokenLink E p f \<Longrightarrow> \<not> isIncluded E p f \<and> \<not> isLeafEntry E p f"
  by (auto simp add: isBrokenLink_def isIncluded_def isLeafEntry_def isFileEntry_def
      isCandidate_def)








lemma readDir_update:
  "isIncluded (E\<lparr>ioutilReadDir := g\<rparr>) p f = isIncluded E p f"
  "isLeafEntry (E\<lparr>ioutilReadDir := g\<rparr>) p f = isLeafEntry E p f"
  "leafStats (E\<lparr>ioutilReadDir := g\<rparr>) f s = leafStats E f s"
  by (simp_all add: isIncluded_def isLeafEntry_def isCandidate_def isFileEntry_def
      isDirOrSymlinkToDir_def passesPolicy_def hasMarker_def isReadable_def leafStats_def)

lemma filter_not_broken:
  "filter (isIncluded E p) (filter (\<lambda>f. \<not> isBrokenLink E p f) files) = filter (isIncluded E p) files"
  "filter (isLeafEntry E p) (filter (\<lambda>f. \<not> isBrokenLink E p f) files) = filter (isLeafEntry E p) files"
  using broken_not_counted [of E p]
  by (induction files) auto





lemma music_ok: "dirError musicEnv \<lparr>cancelled = False\<rparr> ''/r'' = None"
  by code_simp




lemma loadDir_listed_ok:
  assumes "dirError E ctx p = None"
  shows "listed (fst (loadDir E ctx p)) = [p]"
proof -
  from assms obtain di files where s: "osStat E p = Inr di" "ioutilReadDir E p = Inr files"
    by (auto simp add: dirError_None)
  show ?thesis
    using loadDirLoop_quiet [of E p files "([], zeroStats\<lparr>ModTime := fi_ModTime di\<rparr>)"]
    by (simp add: loadDir_ok [OF s] listed_append)
qed

lemma rangeChildren_ok_all:
  assumes "rangeChildren walk cs = Some (t, None)"
    and "Q []" and "\<And>a b. Q a \<Longrightarrow> Q b \<Longrightarrow> Q (a @ b)"
    and "\<And>c tc. c \<in> set cs \<Longrightarrow> walk c = Some (tc, None) \<Longrightarrow> Q tc"
  shows "Q t"
  using assms(1) assms(4)
proof (induction cs arbitrary: t)
  case Nil
  with assms(2) show ?case by simp
next
  case (Cons d cs)
  from Cons.prems(1) show ?case
  proof (cases rule: rangeChildren_ConsE)
    case (fail e)
    then show ?thesis by simp
  next
    case (continue td t')
    from Cons.prems(2) [of d td] continue have "Q td" by simp
    moreover have "Q t'"
    proof (rule Cons.IH [OF continue(2)])
      fix c tc assume "c \<in> set cs" "walk c = Some (tc, None)"
      then show "Q tc" using Cons.prems(2) [of c tc] by simp
    qed
    ultimately show ?thesis
      using continue assms(3) by simp
  qed
qed

lemma rangeChildren_returns:
  assumes "\<And>c. c \<in> set cs \<Longrightarrow> \<exists>tc. walk c = Some (tc, None)"
  shows "\<exists>t. rangeChildren walk cs = Some (t, None)"
  using assms
proof (induction cs)
  case Nil
  show ?case by simp
next
  case (Cons d cs)
  from Cons.prems [of d] obtain td where "walk d = Some (td, None)"
    by auto
  moreover from Cons obtain t where "rangeChildren walk cs = Some (t, None)"
    by auto
  ultimately show ?case by simp
qed

lemma walkFolder_ok_mset:
  "walkFolder n E ctx r p = Some (t, None) \<Longrightarrow>
   mset (sent t) = mset (map (dirRecord E ctx) (listed t))"
proof (induction n arbitrary: p t)
  case 0
  then show ?case by simp
next
  case (Suc n)
  from Suc.prems show ?case
  proof (cases rule: walkFolder_SucE)
    case (ok t2)
    have "mset (sent t2) = mset (map (dirRecord E ctx) (listed t2))"
      by (rule rangeChildren_ok_all [OF ok(2)])
        (simp_all add: sent_append listed_append Suc.IH)
    moreover have "sent (fst (loadDir E ctx p)) = []"
      using loadDir_trace [of E ctx p] by simp
    ultimately show ?thesis
      by (simp add: ok(3) sent_append listed_append loadDir_listed_ok [OF ok(1)])
  qed simp_all
qed

lemma walkFolder_ok_starts:
  assumes "walkFolder n E ctx r p = Some (t, None)"
  shows "p \<in> set (listed t)"
proof (cases n)
  case 0
  with assms show ?thesis by simp
next
  case (Suc m)
  from assms [unfolded Suc] show ?thesis
    by (cases rule: walkFolder_SucE) (simp_all add: listed_append loadDir_listed_ok)
qed

lemma walkFolder_ok_sub_child:
  assumes "walkFolder n E ctx r p = Some (t, None)" and "(p, c) \<in> childRel E ctx"
  shows "\<exists>tc pre post. walkFolder n E ctx r c = Some (tc, None) \<and> t = pre @ tc @ post"
proof (cases n)
  case 0
  with assms show ?thesis by simp
next
  case (Suc m)
  from assms(1) [unfolded Suc] show ?thesis
  proof (cases rule: walkFolder_SucE)
    case (ok t2)
    from assms(2) have "c \<in> set (dirChildren E ctx p)"
      by (simp add: childRel_iff)
    from rangeChildren_ok [OF ok(2) this] obtain tc pre post
      where c: "walkFolder m E ctx r c = Some (tc, None)" and t2: "t2 = pre @ tc @ post"
      by blast
    from c have "walkFolder n E ctx r c = Some (tc, None)"
      unfolding Suc by (rule walkFolder_Suc_mono)
    moreover have "t = (fst (loadDir E ctx p) @ pre) @ tc @ (post @ [EvSend (dirRecord E ctx p)])"
      by (simp add: ok(3) t2)
    ultimately show ?thesis by blast
  qed simp_all
qed

lemma walkFolder_ok_sub:
  assumes "(p, q) \<in> (childRel E ctx)\<^sup>*" and "walkFolder n E ctx r p = Some (t, None)"
  shows "\<exists>tq pre post. walkFolder n E ctx r q = Some (tq, None) \<and> t = pre @ tq @ post"
  using assms
proof (induction rule: rtrancl_induct)
  case base
  then have "walkFolder n E ctx r p = Some (t, None) \<and> t = [] @ t @ []"
    by simp
  then show ?case by blast
next
  case (step y z)
  then obtain ty pre post
    where y: "walkFolder n E ctx r y = Some (ty, None)" and t: "t = pre @ ty @ post"
    by blast
  from walkFolder_ok_sub_child [OF y step.hyps(2)] obtain tz pre' post'
    where z: "walkFolder n E ctx r z = Some (tz, None)" and ty: "ty = pre' @ tz @ post'"
    by blast
  have "t = (pre @ pre') @ tz @ (post' @ post)"
    by (simp add: t ty)
  with z show ?case by blast
qed

lemma walkFolder_ok_listed:
  assumes "walkFolder n E ctx r p = Some (t, None)"
  shows "set (listed t) = {q. (p, q) \<in> (childRel E ctx)\<^sup>*}"
proof (intro set_eqI iffI)
  fix q assume "q \<in> set (listed t)"
  with assms have "(p, q) \<in> (childRel E ctx)\<^sup>*"
    by (rule walkFolder_listed)
  then show "q \<in> {q. (p, q) \<in> (childRel E ctx)\<^sup>*}" by simp
next
  fix q assume "q \<in> {q. (p, q) \<in> (childRel E ctx)\<^sup>*}"
  then have "(p, q) \<in> (childRel E ctx)\<^sup>*" by simp
  from walkFolder_ok_sub [OF this assms] obtain tq pre post
    where q: "walkFolder n E ctx r q = Some (tq, None)" "t = pre @ tq @ post"
    by blast
  from walkFolder_ok_starts [OF q(1)] q(2) show "q \<in> set (listed t)"
    by (simp add: listed_append)
qed

lemma walk_order:
  assumes t0: "walkFolder n E ctx r root = Some (t0, None)"
    and A: "(root, A) \<in> (childRel E ctx)\<^sup>*"
    and D: "(A, D) \<in> (childRel E ctx)\<^sup>+"
  shows "\<exists>pre mid post. sent t0 = pre @ [dirRecord E ctx D] @ mid @ [dirRecord E ctx A] @ post"
proof -
  from walkFolder_ok_reach [OF A t0] obtain tA pre post
    where tA: "walkFolder n E ctx r A = Some (tA, None)"
      and s0: "sent t0 = pre @ sent tA @ post"
    by blast
  from D obtain c where c: "(A, c) \<in> childRel E ctx" "(c, D) \<in> (childRel E ctx)\<^sup>*"
    by (blast dest: tranclD)
  from walkFolder_ok_child [OF tA c(1)] obtain tc pre1 post1
    where tc: "walkFolder n E ctx r c = Some (tc, None)"
      and sA: "sent tA = pre1 @ sent tc @ post1 @ [dirRecord E ctx A]"
    by blast
  from walkFolder_ok_reach [OF c(2) tc] obtain tD pre2 post2
    where tD: "walkFolder n E ctx r D = Some (tD, None)"
      and sc: "sent tc = pre2 @ sent tD @ post2"
    by blast
  from walkFolder_ok_here [OF tD] obtain pre3
    where sD: "sent tD = pre3 @ [dirRecord E ctx D]"
    by blast
  have "sent t0 = (pre @ pre1 @ pre2 @ pre3) @ [dirRecord E ctx D] @ (post2 @ post1)
      @ [dirRecord E ctx A] @ post"
    by (simp add: s0 sA sc sD)
  then show ?thesis by blast
qed

text \<open>
  C1. On a walk that returns no error the records are sent bottom-up. The record of the
  root is the last one sent. Every listing of a directory gives one record, neither more
  nor less, and the directories listed are those that the walk reaches from the root; when
  their cleaned paths are distinct, so are the paths of the records. When \<open>A\<close> is a
  directory of the walk and \<open>D\<close> a descendant of \<open>A\<close>, the record of \<open>D\<close> is sent
  before the record of \<open>A\<close>.
\<close>

theorem walk_bottom_up:
  assumes "walkDirTree n E ctx root = Some (t, None)"
  shows "sent t \<noteq> [] \<and> last (sent t) = dirRecord E ctx root
       \<and> mset (sent t) = mset (map (dirRecord E ctx) (listed t))
       \<and> set (listed t) = {q. (root, q) \<in> (childRel E ctx)\<^sup>*}
       \<and> (distinct (map (filepathClean E) (listed t)) \<longrightarrow> distinct (map Path (sent t)))
       \<and> (\<forall>A D. (root, A) \<in> (childRel E ctx)\<^sup>* \<and> (A, D) \<in> (childRel E ctx)\<^sup>+ \<longrightarrow>
             (\<exists>pre mid post.
                sent t = pre @ [dirRecord E ctx D] @ mid @ [dirRecord E ctx A] @ post))"
proof -
  from assms obtain t0 where t0: "walkFolder n E ctx root root = Some (t0, None)"
    and t: "t = t0 @ [EvClose]"
    by (auto simp add: walkDirTree_def split: option.splits)
  have st: "sent t = sent t0" and lt: "listed t = listed t0"
    by (simp_all add: t sent_append listed_append)
  from walkFolder_ok_here [OF t0] obtain pre4
    where "sent t0 = pre4 @ [dirRecord E ctx root]"
    by blast
  with st have 1: "sent t \<noteq> [] \<and> last (sent t) = dirRecord E ctx root"
    by simp
  have 2: "mset (sent t) = mset (map (dirRecord E ctx) (listed t))"
    by (simp only: st lt walkFolder_ok_mset [OF t0])
  have 3: "set (listed t) = {q. (root, q) \<in> (childRel E ctx)\<^sup>*}"
    by (simp only: lt walkFolder_ok_listed [OF t0])
  have 4: "distinct (map Path (sent t))" if d: "distinct (map (filepathClean E) (listed t))"
  proof -
    have "mset (map Path (sent t)) = image_mset Path (mset (sent t))"
      by simp
    also have "\<dots> = image_mset Path (mset (map (dirRecord E ctx) (listed t)))"
      by (simp only: 2)
    also have "\<dots> = mset (map (filepathClean E) (listed t))"
      by (simp add: dirRecord_Path comp_def multiset.map_comp)
    finally have "mset (map Path (sent t)) = mset (map (filepathClean E) (listed t))" .
    from mset_eq_imp_distinct_iff [OF this] d show ?thesis by simp
  qed
  have 5: "\<exists>pre mid post. sent t = pre @ [dirRecord E ctx D] @ mid @ [dirRecord E ctx A] @ post"
    if "(root, A) \<in> (childRel E ctx)\<^sup>* \<and> (A, D) \<in> (childRel E ctx)\<^sup>+" for A D
    using walk_order [OF t0, of A D] that by (simp add: st)
  from 1 2 3 4 5 show ?thesis by blast
qed

lemma hidden_flat: "dirChildren hiddenEnv \<lparr>cancelled = False\<rparr> ''/m'' = []"
  by code_simp

lemma music_distinct: "distinct (map (filepathClean musicEnv) (listed (musicEvents @ [EvClose])))"
  by code_simp

lemma music_paths: "map Path (sent (musicEvents @ [EvClose])) = [''/r/a'', ''/r'']"
  by code_simp

theorem walk_bottom_up_witness:
  "walkDirTree 5 musicEnv \<lparr>cancelled = False\<rparr> ''/r'' = Some (musicEvents @ [EvClose], None)
   \<and> (''/r'', ''/r'') \<in> (childRel musicEnv \<lparr>cancelled = False\<rparr>)\<^sup>*
   \<and> (''/r'', ''/r/a'') \<in> (childRel musicEnv \<lparr>cancelled = False\<rparr>)\<^sup>+
   \<and> distinct (map (filepathClean musicEnv) (listed (musicEvents @ [EvClose])))
   \<and> (\<exists>pre mid post. sent (musicEvents @ [EvClose]) =
         pre @ [dirRecord musicEnv \<lparr>cancelled = False\<rparr> ''/r/a''] @ mid
           @ [dirRecord musicEnv \<lparr>cancelled = False\<rparr> ''/r''] @ post)
   \<and> sent (musicEvents @ [EvClose]) \<noteq> []
   \<and> last (sent (musicEvents @ [EvClose])) = dirRecord musicEnv \<lparr>cancelled = False\<rparr> ''/r''
   \<and> mset (sent (musicEvents @ [EvClose]))
       = mset (map (dirRecord musicEnv \<lparr>cancelled = False\<rparr>) (listed (musicEvents @ [EvClose])))
   \<and> distinct (map Path (sent (musicEvents @ [EvClose])))
   \<and> map Path (sent (musicEvents @ [EvClose])) = [''/r/a'', ''/r'']
   \<and> walkDirTree 5 hiddenEnv \<lparr>cancelled = False\<rparr> ''/m'' = Some (hiddenEvents @ [EvClose], None)
   \<and> dirChildren hiddenEnv \<lparr>cancelled = False\<rparr> ''/m'' = []
   \<and> last (sent (hiddenEvents @ [EvClose])) = dirRecord hiddenEnv \<lparr>cancelled = False\<rparr> ''/m''
   \<and> sent (hiddenEvents @ [EvClose]) = [hiddenRecord]"
proof -
  have a: "(''/r'', ''/r'') \<in> (childRel musicEnv \<lparr>cancelled = False\<rparr>)\<^sup>*"
    by simp
  have d: "(''/r'', ''/r/a'') \<in> (childRel musicEnv \<lparr>cancelled = False\<rparr>)\<^sup>+"
    by (rule r_into_trancl) (simp add: childRel_iff music_children)
  from walk_bottom_up [OF hidden_walk]
  have f: "last (sent (hiddenEvents @ [EvClose])) = dirRecord hiddenEnv \<lparr>cancelled = False\<rparr> ''/m''"
    by blast
  have s: "sent (hiddenEvents @ [EvClose]) = [hiddenRecord]"
    by (simp add: hiddenEvents_def)
  from walk_bottom_up [OF music_walk] music_walk a d music_distinct music_paths
    hidden_walk hidden_flat f s
  show ?thesis
    by blast
qed


lemma walkDirTree_mono:
  "n \<le> m \<Longrightarrow> walkDirTree n E ctx root = Some x \<Longrightarrow> walkDirTree m E ctx root = Some x"
  by (cases x) (auto simp add: walkDirTree_def split: option.splits dest: walkFolder_mono)

lemma walk_returns:
  assumes "finite {p. (root, p) \<in> (childRel E ctx)\<^sup>*}" and "acyclic (reachRel E ctx root)"
  shows "\<exists>n x. \<forall>m. n \<le> m \<longrightarrow> walkDirTree m E ctx root = Some x"
proof -
  from assms have "finite (reachRel E ctx root)"
    by (simp add: reachRel_finite)
  with assms have "wf ((reachRel E ctx root)\<inverse>)"
    by (simp add: finite_acyclic_wf_converse)
  from walkFolder_terminates [OF this, of root root] obtain n x
    where n: "walkFolder n E ctx root root = Some x"
    by auto
  obtain t res where x: "x = (t, res)" by (cases x)
  have "walkDirTree m E ctx root = Some (t @ [EvClose], res)" if "n \<le> m" for m
    using walkFolder_mono [OF that n] by (simp add: walkDirTree_def x)
  then show ?thesis by blast
qed


























lemma readDir_update_parts:
  "isDirOrSymlinkToDir (E\<lparr>ioutilReadDir := g\<rparr>) p f = isDirOrSymlinkToDir E p f"
  "isChild (E\<lparr>ioutilReadDir := g\<rparr>) p f b = isChild E p f b"
  by (simp_all add: isDirOrSymlinkToDir_def isChild_def isDirIgnored_def isDirReadable_def)

lemma readDir_update_entry:
  "loadDirEntry (E\<lparr>ioutilReadDir := g\<rparr>) p f cs = loadDirEntry E p f cs"
  by (simp add: loadDirEntry_def readDir_update_parts readDir_update(3)
      split: prod.splits option.splits bool.splits)

lemma readDir_update_loop:
  "loadDirLoop (E\<lparr>ioutilReadDir := g\<rparr>) p files cs = loadDirLoop E p files cs"
  by (induction files arbitrary: cs) (simp_all add: readDir_update_entry)

lemma readDir_update_loadDir:
  assumes "g p = ioutilReadDir E p"
  shows "loadDir (E\<lparr>ioutilReadDir := g\<rparr>) ctx p = loadDir E ctx p"
  using assms by (simp add: loadDir_def readDir_update_loop Let_def split: sum.splits prod.splits)

lemma skip_broken_loadDir:
  assumes "osStat E dirPath = Inr dirInfo" and "ioutilReadDir E dirPath = Inr files"
  shows "snd (loadDir E ctx dirPath) =
           snd (loadDir (E\<lparr>ioutilReadDir := (ioutilReadDir E)
                  (dirPath := Inr (filter (\<lambda>f. \<not> isBrokenLink E dirPath f) files))\<rparr>) ctx dirPath)"
proof -
  let ?E' = "E\<lparr>ioutilReadDir := (ioutilReadDir E)
                  (dirPath := Inr (filter (\<lambda>f. \<not> isBrokenLink E dirPath f) files))\<rparr>"
  have s': "osStat ?E' dirPath = Inr dirInfo"
    "ioutilReadDir ?E' dirPath = Inr (filter (\<lambda>f. \<not> isBrokenLink E dirPath f) files)"
    using assms by simp_all
  have inc: "isIncluded ?E' dirPath = isIncluded E dirPath"
    and leaf: "isLeafEntry ?E' dirPath = isLeafEntry E dirPath"
    and ls: "leafStats ?E' = leafStats E"
    by (intro ext, rule readDir_update)+
  show ?thesis
    by (simp only: loadDir_ok [OF assms] loadDir_ok [OF s'] snd_conv inc leaf ls
        filter_not_broken) simp
qed

lemma skip_broken_everywhere:
  assumes "osStat E dirPath = Inr dirInfo" and "ioutilReadDir E dirPath = Inr files"
  shows "snd (loadDir (E\<lparr>ioutilReadDir := (ioutilReadDir E)
                  (dirPath := Inr (filter (\<lambda>f. \<not> isBrokenLink E dirPath f) files))\<rparr>) ctx p)
         = snd (loadDir E ctx p)"
proof (cases "p = dirPath")
  case True
  with skip_broken_loadDir [OF assms, of ctx] show ?thesis by simp
next
  case False
  then show ?thesis
    by (simp add: readDir_update_loadDir)
qed

lemma walkRecords_simps:
  "walkRecords None = None" "walkRecords (Some (t, res)) = Some (sent t, res)"
  by (simp_all add: walkRecords_def)

lemma walkRecords_SomeE:
  assumes "walkRecords w = Some (s, res)"
  obtains t where "w = Some (t, res)" "sent t = s"
  using assms by (auto simp add: walkRecords_def)

lemma rangeChildren_records:
  assumes "\<And>c. walkRecords (w c) = walkRecords (w' c)"
  shows "walkRecords (rangeChildren w cs) = walkRecords (rangeChildren w' cs)"
proof (induction cs)
  case Nil
  show ?case by simp
next
  case (Cons c cs)
  show ?case
  proof (cases "w c")
    case None
    with assms [of c] have "w' c = None"
      by (simp add: walkRecords_def)
    with None show ?thesis by simp
  next
    case (Some x)
    obtain t res where x: "x = (t, res)" by (cases x)
    with Some assms [of c] have "walkRecords (w' c) = Some (sent t, res)"
      by (simp add: walkRecords_simps)
    then obtain t' where t': "w' c = Some (t', res)" "sent t' = sent t"
      by (rule walkRecords_SomeE)
    show ?thesis
    proof (cases res)
      case (Some e)
      with \<open>w c = Some x\<close> x t' show ?thesis
        by (simp add: walkRecords_simps)
    next
      case None
      show ?thesis
      proof (cases "rangeChildren w cs")
        case n: None
        with Cons.IH have "rangeChildren w' cs = None"
          by (simp add: walkRecords_def)
        with n \<open>w c = Some x\<close> x t' None show ?thesis
          by (simp add: walkRecords_simps)
      next
        case (Some y)
        obtain u r where y: "y = (u, r)" by (cases y)
        with Some Cons.IH have "walkRecords (rangeChildren w' cs) = Some (sent u, r)"
          by (simp add: walkRecords_simps)
        then obtain u' where u': "rangeChildren w' cs = Some (u', r)" "sent u' = sent u"
          by (rule walkRecords_SomeE)
        with Some y \<open>w c = Some x\<close> x t' None show ?thesis
          by (simp add: walkRecords_simps sent_append)
      qed
    qed
  qed
qed

lemma walkFolder_records:
  assumes "\<And>p. snd (loadDir E' ctx p) = snd (loadDir E ctx p)"
    and "filepathClean E' = filepathClean E"
  shows "walkRecords (walkFolder n E' ctx r p) = walkRecords (walkFolder n E ctx r p)"
proof (induction n arbitrary: p)
  case 0
  show ?case by simp
next
  case (Suc n)
  have d: "dirError E' ctx p = dirError E ctx p" "dirChildren E' ctx p = dirChildren E ctx p"
    "dirRecord E' ctx p = dirRecord E ctx p"
    using assms(1) [of p] assms(2)
    by (cases "loadDir E' ctx p"; cases "loadDir E ctx p";
        simp add: dirError_def dirChildren_def dirRecord_def)+
  have q: "sent (fst (loadDir E' ctx p)) = []" "sent (fst (loadDir E ctx p)) = []"
    using loadDir_trace [of E' ctx p] loadDir_trace [of E ctx p] by simp_all
  have rc: "walkRecords (rangeChildren (walkFolder n E' ctx r) (dirChildren E ctx p))
      = walkRecords (rangeChildren (walkFolder n E ctx r) (dirChildren E ctx p))"
    by (rule rangeChildren_records) (rule Suc.IH)
  show ?case
  proof (cases "dirError E ctx p")
    case (Some e)
    then show ?thesis
      by (simp only: walkFolder_Suc d) (simp add: walkRecords_simps q)
  next
    case None
    show ?thesis
    proof (cases "rangeChildren (walkFolder n E ctx r) (dirChildren E ctx p)")
      case n: None
      with rc have "rangeChildren (walkFolder n E' ctx r) (dirChildren E ctx p) = None"
        by (simp add: walkRecords_def)
      with n None show ?thesis
        by (simp only: walkFolder_Suc d) simp
    next
      case (Some y)
      obtain u res where y: "y = (u, res)" by (cases y)
      with Some rc
      have "walkRecords (rangeChildren (walkFolder n E' ctx r) (dirChildren E ctx p))
          = Some (sent u, res)"
        by (simp add: walkRecords_simps)
      then obtain u' where u': "rangeChildren (walkFolder n E' ctx r) (dirChildren E ctx p)
          = Some (u', res)" "sent u' = sent u"
        by (rule walkRecords_SomeE)
      from Some y u' None show ?thesis
        by (cases res; simp only: walkFolder_Suc d)
          (simp_all add: walkRecords_simps sent_append q)
    qed
  qed
qed

lemma walkDirTree_records:
  "walkRecords (walkDirTree n E ctx root) =
     map_option (\<lambda>(s, res). (s, res)) (walkRecords (walkFolder n E ctx root root))"
  by (cases "walkFolder n E ctx root root")
    (auto simp add: walkDirTree_def walkRecords_def sent_append)

lemma music_stat: "osStat musicEnv ''/r'' = Inr (dirEntry ''r'' 5)"
  by code_simp

lemma music_readDir:
  "ioutilReadDir musicEnv ''/r'' =
     Inr [dirEntry ''.hidden'' 50, dirEntry ''a'' 7, dirEntry ''b'' 9,
          fileEntry ''cover.jpg'' 20, linkEntry ''dangling'' 99, fileEntry ''t.mp3'' 30]"
  by code_simp

lemma music_broken: "isBrokenLink musicEnv ''/r'' (linkEntry ''dangling'' 99)"
  by code_simp

lemma music_record: "dirRecord musicEnv \<lparr>cancelled = False\<rparr> ''/r'' = musicRecord"
  by code_simp

lemma rangeChildren_runs:
  assumes "\<And>c. c \<in> set cs \<Longrightarrow> \<exists>tc. walk c = Some (tc, None)"
  shows "rangeChildren walk cs = Some (concat (map (\<lambda>c. fst (the (walk c))) cs), None)"
  using assms
proof (induction cs)
  case Nil
  show ?case by simp
next
  case (Cons d cs)
  from Cons.prems [of d] obtain td where "walk d = Some (td, None)"
    by auto
  moreover from Cons
  have "rangeChildren walk cs = Some (concat (map (\<lambda>c. fst (the (walk c))) cs), None)"
    by simp
  ultimately show ?case by simp
qed

lemma music_walk_a:
  "walkFolder (Suc 0) musicEnv \<lparr>cancelled = False\<rparr> ''/r'' ''/r/a''
     = Some ([EvStat ''/r/a'', EvReadDir ''/r/a'',
              EvSend \<lparr>Path = ''/r/a'', ModTime = 7, HasImages = False, HasPlaylist = False,
                AudioFilesCount = 1\<rparr>], None)"
  by code_simp

text \<open>
  C7. A symbolic link that cannot be resolved is skipped. When the stat and the listing of
  the directory succeed, \<open>loadDir\<close> returns no error whatever links are broken, and it
  returns the children and the statistics that it returns for the listing without the
  broken links. Whenever the walks of these children return without error, so does the
  walk of the directory: it loads the directory, walks the children one after the other
  and sends the record of the directory last. A walk sends the
  same records and returns the same error, or does not return, as on the file system
  whose listing of the directory leaves the broken links out.
\<close>

theorem broken_symlink_skipped:
  assumes "osStat E dirPath = Inr dirInfo" and "ioutilReadDir E dirPath = Inr files"
  shows "dirError E ctx dirPath = None
       \<and> snd (loadDir E ctx dirPath) =
           snd (loadDir (E\<lparr>ioutilReadDir := (ioutilReadDir E)
                  (dirPath := Inr (filter (\<lambda>f. \<not> isBrokenLink E dirPath f) files))\<rparr>) ctx dirPath)
       \<and> (\<forall>f \<in> set files. isBrokenLink E dirPath f \<longleftrightarrow>
             \<not> IsDir f \<and> fi_Mode f AND ModeSymlink \<noteq> 0
             \<and> (\<exists>e. osStat E (filepathJoin E [dirPath, fi_Name f]) = Inl e))
       \<and> (\<forall>n r. (\<forall>c \<in> set (dirChildren E ctx dirPath).
                    \<exists>tc. walkFolder n E ctx r c = Some (tc, None))
             \<longrightarrow> walkFolder (Suc n) E ctx r dirPath
                   = Some (fst (loadDir E ctx dirPath)
                       @ concat (map (\<lambda>c. fst (the (walkFolder n E ctx r c)))
                           (dirChildren E ctx dirPath))
                       @ [EvSend (dirRecord E ctx dirPath)], None))
       \<and> (\<forall>n root. walkRecords (walkDirTree n E ctx root) =
             walkRecords (walkDirTree n (E\<lparr>ioutilReadDir := (ioutilReadDir E)
                  (dirPath := Inr (filter (\<lambda>f. \<not> isBrokenLink E dirPath f) files))\<rparr>) ctx root))"
proof (intro conjI)
  let ?E' = "E\<lparr>ioutilReadDir := (ioutilReadDir E)
                  (dirPath := Inr (filter (\<lambda>f. \<not> isBrokenLink E dirPath f) files))\<rparr>"
  from assms show ok: "dirError E ctx dirPath = None"
    by (simp add: dirError_None)
  show "snd (loadDir E ctx dirPath) = snd (loadDir ?E' ctx dirPath)"
    by (rule skip_broken_loadDir [OF assms])
  show "\<forall>f \<in> set files. isBrokenLink E dirPath f \<longleftrightarrow>
             \<not> IsDir f \<and> fi_Mode f AND ModeSymlink \<noteq> 0
             \<and> (\<exists>e. osStat E (filepathJoin E [dirPath, fi_Name f]) = Inl e)"
    by (simp add: isBrokenLink_iff)
  show "\<forall>n r. (\<forall>c \<in> set (dirChildren E ctx dirPath).
                    \<exists>tc. walkFolder n E ctx r c = Some (tc, None))
             \<longrightarrow> walkFolder (Suc n) E ctx r dirPath
                   = Some (fst (loadDir E ctx dirPath)
                       @ concat (map (\<lambda>c. fst (the (walkFolder n E ctx r c)))
                           (dirChildren E ctx dirPath))
                       @ [EvSend (dirRecord E ctx dirPath)], None)"
  proof (intro allI impI)
    fix n r
    assume "\<forall>c \<in> set (dirChildren E ctx dirPath). \<exists>tc. walkFolder n E ctx r c = Some (tc, None)"
    then have "rangeChildren (walkFolder n E ctx r) (dirChildren E ctx dirPath)
        = Some (concat (map (\<lambda>c. fst (the (walkFolder n E ctx r c)))
            (dirChildren E ctx dirPath)), None)"
      by (intro rangeChildren_runs) simp
    with ok show "walkFolder (Suc n) E ctx r dirPath
        = Some (fst (loadDir E ctx dirPath)
            @ concat (map (\<lambda>c. fst (the (walkFolder n E ctx r c)))
                (dirChildren E ctx dirPath))
            @ [EvSend (dirRecord E ctx dirPath)], None)"
      by (simp only: walkFolder_Suc) simp
  qed
  show "\<forall>n root. walkRecords (walkDirTree n E ctx root) = walkRecords (walkDirTree n ?E' ctx root)"
  proof (intro allI)
    fix n root
    have "walkRecords (walkFolder n ?E' ctx root root) = walkRecords (walkFolder n E ctx root root)"
      by (rule walkFolder_records) (simp_all add: skip_broken_everywhere [OF assms])
    then show "walkRecords (walkDirTree n E ctx root) = walkRecords (walkDirTree n ?E' ctx root)"
      by (simp only: walkDirTree_records)
  qed
qed

theorem broken_symlink_skipped_witness:
  "osStat musicEnv ''/r'' = Inr (dirEntry ''r'' 5)
   \<and> ioutilReadDir musicEnv ''/r'' =
       Inr [dirEntry ''.hidden'' 50, dirEntry ''a'' 7, dirEntry ''b'' 9,
            fileEntry ''cover.jpg'' 20, linkEntry ''dangling'' 99, fileEntry ''t.mp3'' 30]
   \<and> isBrokenLink musicEnv ''/r'' (linkEntry ''dangling'' 99)
   \<and> dirError musicEnv \<lparr>cancelled = False\<rparr> ''/r'' = None
   \<and> dirChildren musicEnv \<lparr>cancelled = False\<rparr> ''/r'' = [''/r/a'']
   \<and> (\<exists>tc. walkFolder (Suc 0) musicEnv \<lparr>cancelled = False\<rparr> ''/r'' ''/r/a'' = Some (tc, None))
   \<and> (\<exists>t'. walkFolder (Suc (Suc 0)) musicEnv \<lparr>cancelled = False\<rparr> ''/r'' ''/r''
              = Some (t' @ [EvSend musicRecord], None))
   \<and> walkRecords (walkDirTree 5 (musicEnv\<lparr>ioutilReadDir := (ioutilReadDir musicEnv)
              (''/r'' := Inr (filter (\<lambda>f. \<not> isBrokenLink musicEnv ''/r'' f)
                 [dirEntry ''.hidden'' 50, dirEntry ''a'' 7, dirEntry ''b'' 9,
                  fileEntry ''cover.jpg'' 20, linkEntry ''dangling'' 99,
                  fileEntry ''t.mp3'' 30]))\<rparr>) \<lparr>cancelled = False\<rparr> ''/r'')
       = Some ([\<lparr>Path = ''/r/a'', ModTime = 7, HasImages = False, HasPlaylist = False,
                  AudioFilesCount = 1\<rparr>, musicRecord], None)"
proof -
  let ?c = "\<lparr>cancelled = False\<rparr>"
  note inst = broken_symlink_skipped [OF music_stat music_readDir, of ?c]
  from inst have ok: "dirError musicEnv ?c ''/r'' = None"
    by blast
  have ch: "\<forall>c \<in> set (dirChildren musicEnv ?c ''/r'').
      \<exists>tc. walkFolder (Suc 0) musicEnv ?c ''/r'' c = Some (tc, None)"
    by (simp del: walkFolder.simps add: music_children music_walk_a)
  from inst have "(\<forall>c \<in> set (dirChildren musicEnv ?c ''/r'').
                    \<exists>tc. walkFolder (Suc 0) musicEnv ?c ''/r'' c = Some (tc, None))
             \<longrightarrow> walkFolder (Suc (Suc 0)) musicEnv ?c ''/r'' ''/r''
                   = Some (fst (loadDir musicEnv ?c ''/r'')
                       @ concat (map (\<lambda>c. fst (the (walkFolder (Suc 0) musicEnv ?c ''/r'' c)))
                           (dirChildren musicEnv ?c ''/r''))
                       @ [EvSend (dirRecord musicEnv ?c ''/r'')], None)"
    by blast
  with ch have "walkFolder (Suc (Suc 0)) musicEnv ?c ''/r'' ''/r''
                   = Some (fst (loadDir musicEnv ?c ''/r'')
                       @ concat (map (\<lambda>c. fst (the (walkFolder (Suc 0) musicEnv ?c ''/r'' c)))
                           (dirChildren musicEnv ?c ''/r''))
                       @ [EvSend (dirRecord musicEnv ?c ''/r'')], None)"
    by blast
  then have "walkFolder (Suc (Suc 0)) musicEnv ?c ''/r'' ''/r''
      = Some ((fst (loadDir musicEnv ?c ''/r'')
                @ concat (map (\<lambda>c. fst (the (walkFolder (Suc 0) musicEnv ?c ''/r'' c)))
                    (dirChildren musicEnv ?c ''/r''))) @ [EvSend musicRecord], None)"
    by (simp only: music_record append_assoc)
  then have w: "\<exists>t'. walkFolder (Suc (Suc 0)) musicEnv ?c ''/r'' ''/r''
              = Some (t' @ [EvSend musicRecord], None)"
    by blast
  from inst have "walkRecords (walkDirTree 5 musicEnv ?c ''/r'') =
     walkRecords (walkDirTree 5 (musicEnv\<lparr>ioutilReadDir := (ioutilReadDir musicEnv)
              (''/r'' := Inr (filter (\<lambda>f. \<not> isBrokenLink musicEnv ''/r'' f)
                 [dirEntry ''.hidden'' 50, dirEntry ''a'' 7, dirEntry ''b'' 9,
                  fileEntry ''cover.jpg'' 20, linkEntry ''dangling'' 99,
                  fileEntry ''t.mp3'' 30]))\<rparr>) ?c ''/r'')"
    by blast
  then have e: "walkRecords (walkDirTree 5 (musicEnv\<lparr>ioutilReadDir := (ioutilReadDir musicEnv)
              (''/r'' := Inr (filter (\<lambda>f. \<not> isBrokenLink musicEnv ''/r'' f)
                 [dirEntry ''.hidden'' 50, dirEntry ''a'' 7, dirEntry ''b'' 9,
                  fileEntry ''cover.jpg'' 20, linkEntry ''dangling'' 99,
                  fileEntry ''t.mp3'' 30]))\<rparr>) ?c ''/r'')
       = Some ([\<lparr>Path = ''/r/a'', ModTime = 7, HasImages = False, HasPlaylist = False,
                  AudioFilesCount = 1\<rparr>, musicRecord], None)"
    by (simp only: music_walk walkRecords_simps music_sent)
  have a: "\<exists>tc. walkFolder (Suc 0) musicEnv ?c ''/r'' ''/r/a'' = Some (tc, None)"
    by (simp del: walkFolder.simps add: music_walk_a)
  from ok w e a music_stat music_readDir music_broken music_children show ?thesis
    by blast
qed

lemma countLoops_append:
  "countLoops xs = Some k \<Longrightarrow> countLoops (xs @ ys) = map_option ((+) k) (countLoops ys)"
proof (induction xs arbitrary: k rule: countLoops.induct)
  case 1
  then show ?case
    by (cases "countLoops ys") simp_all
next
  case (2 c1 c2 c3 c4 c5 rest)
  from "2.prems" have l: "[c1, c2, c3, c4, c5] = ''/loop''"
    by (simp split: if_splits)
  with "2.prems" obtain k' where k': "countLoops rest = Some k'" "k = Suc k'"
    by auto
  from "2.IH" [OF l k'(1)] have "countLoops (rest @ ys) = map_option ((+) k') (countLoops ys)" .
  with l k'(2) show ?case
    by (cases "countLoops ys") simp_all
qed simp_all

lemma loopLinks_append:
  assumes "loopLinks p = Some k"
  shows "loopLinks (p @ ys) = map_option ((+) k) (countLoops ys)"
proof -
  from assms have p: "take 2 p = ''/r''" "countLoops (drop 2 p) = Some k"
    by (simp_all add: loopLinks_def split: if_splits)
  from p(1) have "2 \<le> length p"
    by (cases p rule: countLoops.cases) auto
  then have "take 2 (p @ ys) = take 2 p" "drop 2 (p @ ys) = drop 2 p @ ys"
    by simp_all
  with p show ?thesis
    by (simp add: loopLinks_def countLoops_append)
qed

lemma loop_paths:
  assumes "loopLinks p = Some k"
  shows "loopLinks (p @ ''/loop'') = Some (Suc k)" "loopLinks (p @ ''/loop/.ndignore'') = None"
  by (simp_all add: loopLinks_append [OF assms])

lemma loop_entry:
  "fi_Name (linkEntry ''loop'' 6) = ''loop''" "\<not> IsDir (linkEntry ''loop'' 6)"
  "fi_Mode (linkEntry ''loop'' 6) AND ModeSymlink \<noteq> 0" "IsDir (dirEntry ''r'' 5)"
  "\<not> isHidden (linkEntry ''loop'' 6)"
  by (simp_all add: linkEntry_def dirEntry_def IsDir_def ModeDir_def ModeSymlink_def
      isHidden_def HasPrefix_def)

lemma loop_env:
  "osStat loopEnv = loopStat" "ioutilReadDir loopEnv = loopReadDir"
  "filepathJoin loopEnv [p, ''loop''] = p @ ''/loop''"
  "filepathJoin loopEnv [p, ''loop'', ''.ndignore''] = p @ ''/loop/.ndignore''"
  "constsSkipScanFile loopEnv = ''.ndignore''" "utilsIsDirReadable loopEnv q"
  by (simp_all add: loopEnv_def)

lemma loop_load:
  assumes "loopLinks p = Some k" and "k \<le> 40"
  shows "dirError loopEnv ctx p = None"
    and "dirChildren loopEnv ctx p = (if k < 40 then [p @ ''/loop''] else [])"
proof -
  from assms have s: "osStat loopEnv p = Inr (dirEntry ''r'' 5)"
    "ioutilReadDir loopEnv p = Inr [linkEntry ''loop'' 6]"
    by (simp_all add: loop_env loopStat_def loopReadDir_def)
  then show ok: "dirError loopEnv ctx p = None"
    by (simp add: dirError_None)
  have l: "dirListing loopEnv p = [linkEntry ''loop'' 6]"
    by (simp add: dirListing_def s)
  have m: "\<not> hasMarker loopEnv p (linkEntry ''loop'' 6)"
    by (simp add: hasMarker_def loop_entry loop_env loopStat_def loop_paths [OF assms(1)])
  have r: "isReadable loopEnv p (linkEntry ''loop'' 6)"
    by (simp add: isReadable_def loop_env)
  have c: "isCandidate loopEnv p (linkEntry ''loop'' 6) \<longleftrightarrow> k < 40"
    using assms(2)
    by (auto simp add: isCandidate_iff loop_entry loop_env loopStat_def
        loop_paths [OF assms(1)])
  from m r c have "isIncluded loopEnv p (linkEntry ''loop'' 6) \<longleftrightarrow> k < 40"
    by (simp add: isIncluded_def passesPolicy_def loop_entry)
  then show "dirChildren loopEnv ctx p = (if k < 40 then [p @ ''/loop''] else [])"
    by (simp add: dirChildren_eq [OF ok] l loop_entry loop_env)
qed

lemma loop_walk:
  assumes "loopLinks p = Some k" and "k + d = 40"
  shows "\<exists>t. walkFolder (Suc (d + j)) loopEnv ctx r p = Some (t, None) \<and> length (sent t) = Suc d"
  using assms
proof (induction d arbitrary: p k)
  case 0
  then have k: "k \<le> 40" "\<not> k < 40" by simp_all
  have q: "sent (fst (loadDir loopEnv ctx p)) = []"
    using loadDir_trace [of loopEnv ctx p] by simp
  have "walkFolder (Suc (0 + j)) loopEnv ctx r p
      = Some (fst (loadDir loopEnv ctx p) @ [EvSend (dirRecord loopEnv ctx p)], None)"
    by (simp only: walkFolder_Suc loop_load [OF "0.prems"(1) k(1)]) (simp add: k)
  moreover have "length (sent (fst (loadDir loopEnv ctx p)
      @ [EvSend (dirRecord loopEnv ctx p)])) = Suc 0"
    by (simp add: sent_append q)
  ultimately show ?case by blast
next
  case (Suc d)
  then have k: "k \<le> 40" "k < 40" by simp_all
  from Suc.prems have "Suc k + d = 40" by simp
  from Suc.IH [OF loop_paths(1) [OF Suc.prems(1)] this] obtain tc
    where tc: "walkFolder (Suc (d + j)) loopEnv ctx r (p @ ''/loop'') = Some (tc, None)"
      "length (sent tc) = Suc d"
    by blast
  have q: "sent (fst (loadDir loopEnv ctx p)) = []"
    using loadDir_trace [of loopEnv ctx p] by simp
  have "walkFolder (Suc (Suc (d + j))) loopEnv ctx r p
      = Some (fst (loadDir loopEnv ctx p) @ tc @ [EvSend (dirRecord loopEnv ctx p)], None)"
    by (simp only: walkFolder_Suc loop_load [OF Suc.prems(1) k(1)])
      (simp del: walkFolder.simps add: k tc)
  then have "walkFolder (Suc (Suc d + j)) loopEnv ctx r p
      = Some (fst (loadDir loopEnv ctx p) @ tc @ [EvSend (dirRecord loopEnv ctx p)], None)"
    by (simp only: add_Suc)
  moreover have "length (sent (fst (loadDir loopEnv ctx p) @ tc
      @ [EvSend (dirRecord loopEnv ctx p)])) = Suc (Suc d)"
    by (simp add: sent_append q tc(2))
  ultimately show ?case by blast
qed

lemma loop_returns:
  "walkOutcome (walkDirTree (41 + j) loopEnv ctx ''/r'') = Some (41, None)"
proof -
  have "loopLinks ''/r'' = Some 0"
    by (simp add: loopLinks_def)
  from loop_walk [OF this, of 40 j ctx "''/r''"] obtain t
    where "walkFolder (Suc (40 + j)) loopEnv ctx ''/r'' ''/r'' = Some (t, None)"
      "length (sent t) = Suc 40"
    by auto
  moreover have "Suc (40 + j) = 41 + j" by simp
  ultimately show ?thesis
    by (simp del: walkFolder.simps add: walkOutcome_def walkDirTree_def sent_append)
qed

lemma loop_link:
  "osStat loopEnv ''/r/loop'' = osStat loopEnv ''/r''"
  "ioutilReadDir loopEnv ''/r/loop'' = ioutilReadDir loopEnv ''/r''"
  "dirListing loopEnv ''/r'' = [linkEntry ''loop'' 6]"
  "isCandidate loopEnv ''/r'' (linkEntry ''loop'' 6)"
  "dirChildren loopEnv \<lparr>cancelled = False\<rparr> ''/r'' = [''/r/loop'']"
  by code_simp+

lemma music_children_a: "dirChildren musicEnv \<lparr>cancelled = False\<rparr> ''/r/a'' = []"
  by code_simp

lemma music_reach:
  "(''/r'', p) \<in> (childRel musicEnv \<lparr>cancelled = False\<rparr>)\<^sup>* \<Longrightarrow> p = ''/r'' \<or> p = ''/r/a''"
  by (induction rule: rtrancl_induct)
    (auto simp add: childRel_iff music_children music_children_a)

lemma music_finite: "finite {p. (''/r'', p) \<in> (childRel musicEnv \<lparr>cancelled = False\<rparr>)\<^sup>*}"
proof -
  have "{p. (''/r'', p) \<in> (childRel musicEnv \<lparr>cancelled = False\<rparr>)\<^sup>*} \<subseteq> {''/r'', ''/r/a''}"
    using music_reach by auto
  then show ?thesis
    by (rule finite_subset) simp
qed

lemma music_acyclic: "acyclic (reachRel musicEnv \<lparr>cancelled = False\<rparr> ''/r'')"
proof -
  let ?c = "\<lparr>cancelled = False\<rparr>"
  have "reachRel musicEnv ?c ''/r'' \<subseteq> {(''/r'', ''/r/a'')}"
  proof
    fix x assume x: "x \<in> reachRel musicEnv ?c ''/r''"
    obtain a b where ab: "x = (a, b)" by (cases x)
    from x ab have r: "(''/r'', a) \<in> (childRel musicEnv ?c)\<^sup>*"
      and b: "b \<in> set (dirChildren musicEnv ?c a)"
      by (simp_all add: reachRel_def childRel_iff)
    from music_reach [OF r] b have "a = ''/r'' \<and> b = ''/r/a''"
      by (auto simp add: music_children music_children_a)
    with ab show "x \<in> {(''/r'', ''/r/a'')}" by simp
  qed
  moreover have "acyclic {(''/r'', ''/r/a'')}"
  proof -
    have "acyclic ({} :: (string \<times> string) set)"
      by (simp add: acyclic_def)
    then show ?thesis
      by (simp add: acyclic_insert)
  qed
  ultimately show ?thesis
    by (rule acyclic_subset [rotated])
qed

text \<open>
  C10. When the directories that the walk reaches from the root are finitely many and
  the child relation on them has no cycle, the walk returns: from some depth bound on,
  \<open>walkDirTree\<close> has one and the same result. The walk follows a symbolic link to a
  directory as it follows a directory, through the path joined from the parent and the
  name, and the walk of a path does not depend on the paths walked before it. A link
  to an ancestor does not by itself keep the walk from returning: in the folder \<open>/r\<close>
  whose entry \<open>loop\<close> links back to \<open>/r\<close> the paths are resolved up to 40 links, the 41st
  is skipped as a link that cannot be resolved, and the walk returns with 41 records.
\<close>

theorem walk_terminates:
  "(finite {p. (root, p) \<in> (childRel E ctx)\<^sup>*} \<and> acyclic (reachRel E ctx root) \<longrightarrow>
      (\<exists>n x. \<forall>m. n \<le> m \<longrightarrow> walkDirTree m E ctx root = Some x))
   \<and> (dirError E ctx p = None \<longrightarrow>
        dirChildren E ctx p =
          map (\<lambda>f. filepathJoin E [p, fi_Name f])
            (filter (\<lambda>f. isCandidate E p f \<and> passesPolicy E p f) (dirListing E p)))
   \<and> walkFolder k E ctx r p = walkFolder k E ctx r' p
   \<and> walkOutcome (walkDirTree (41 + j) loopEnv ctx ''/r'') = Some (41, None)"
proof (intro conjI impI)
  assume "finite {p. (root, p) \<in> (childRel E ctx)\<^sup>*} \<and> acyclic (reachRel E ctx root)"
  then show "\<exists>n x. \<forall>m. n \<le> m \<longrightarrow> walkDirTree m E ctx root = Some x"
    using walk_returns [of root E ctx] by blast
next
  assume ok: "dirError E ctx p = None"
  have "isIncluded E p = (\<lambda>f. isCandidate E p f \<and> passesPolicy E p f)"
    by (intro ext) (simp add: isIncluded_def)
  with dirChildren_eq [OF ok] show "dirChildren E ctx p =
          map (\<lambda>f. filepathJoin E [p, fi_Name f])
            (filter (\<lambda>f. isCandidate E p f \<and> passesPolicy E p f) (dirListing E p))"
    by simp
next
  show "walkFolder k E ctx r p = walkFolder k E ctx r' p"
    by (rule walkFolder_ctx)
  show "walkOutcome (walkDirTree (41 + j) loopEnv ctx ''/r'') = Some (41, None)"
    by (rule loop_returns)
qed

theorem walk_terminates_witness:
  "finite {p. (''/r'', p) \<in> (childRel musicEnv \<lparr>cancelled = False\<rparr>)\<^sup>*}
   \<and> acyclic (reachRel musicEnv \<lparr>cancelled = False\<rparr> ''/r'')
   \<and> (\<exists>n. walkDirTree n musicEnv \<lparr>cancelled = False\<rparr> ''/r'' = Some (musicEvents @ [EvClose], None)
         \<and> walkDirTree (n + 7) musicEnv \<lparr>cancelled = False\<rparr> ''/r''
             = Some (musicEvents @ [EvClose], None))
   \<and> dirError musicEnv \<lparr>cancelled = False\<rparr> ''/r'' = None
   \<and> dirChildren musicEnv \<lparr>cancelled = False\<rparr> ''/r'' =
        map (\<lambda>f. filepathJoin musicEnv [''/r'', fi_Name f])
          (filter (\<lambda>f. isCandidate musicEnv ''/r'' f \<and> passesPolicy musicEnv ''/r'' f)
             (dirListing musicEnv ''/r''))
   \<and> walkOutcome (walkDirTree (41 + 1) loopEnv \<lparr>cancelled = False\<rparr> ''/r'') = Some (41, None)"
proof -
  let ?c = "\<lparr>cancelled = False\<rparr>"
  note inst = walk_terminates [of "''/r''" musicEnv ?c "''/r''" 0 "''/r''" "''/r''" 1]
  from inst music_finite music_acyclic obtain n x
    where n: "\<forall>m. n \<le> m \<longrightarrow> walkDirTree m musicEnv ?c ''/r'' = Some x"
    by blast
  then have "walkDirTree (max n 5) musicEnv ?c ''/r'' = Some x"
    by simp
  moreover have "walkDirTree (max n 5) musicEnv ?c ''/r'' = Some (musicEvents @ [EvClose], None)"
    by (rule walkDirTree_mono [OF _ music_walk]) simp
  ultimately have "x = (musicEvents @ [EvClose], None)"
    by simp
  with n have t: "walkDirTree n musicEnv ?c ''/r'' = Some (musicEvents @ [EvClose], None)
         \<and> walkDirTree (n + 7) musicEnv ?c ''/r'' = Some (musicEvents @ [EvClose], None)"
    by simp
  from inst music_ok have c: "dirChildren musicEnv ?c ''/r'' =
        map (\<lambda>f. filepathJoin musicEnv [''/r'', fi_Name f])
          (filter (\<lambda>f. isCandidate musicEnv ''/r'' f \<and> passesPolicy musicEnv ''/r'' f)
             (dirListing musicEnv ''/r''))"
    by blast
  from inst have l: "walkOutcome (walkDirTree (41 + 1) loopEnv ?c ''/r'') = Some (41, None)"
    by blast
  from music_finite music_acyclic t music_ok c l show ?thesis
    by blast
qed

text \<open>
  The claim of C10 fails where it makes the absence of such links a requirement. The
  entry \<open>loop\<close> of \<open>/r\<close> is a symbolic link to a directory that resolves to \<open>/r\<close>, an
  ancestor of the link, and the walk descends into it; yet the walk of \<open>/r\<close> returns,
  with 41 records and no error.
\<close>

theorem symlink_loop_counterexample:
  "dirListing loopEnv ''/r'' = [linkEntry ''loop'' 6]
   \<and> isCandidate loopEnv ''/r'' (linkEntry ''loop'' 6)
   \<and> osStat loopEnv ''/r/loop'' = osStat loopEnv ''/r''
   \<and> ioutilReadDir loopEnv ''/r/loop'' = ioutilReadDir loopEnv ''/r''
   \<and> dirChildren loopEnv \<lparr>cancelled = False\<rparr> ''/r'' = [''/r/loop'']
   \<and> walkOutcome (walkDirTree 41 loopEnv \<lparr>cancelled = False\<rparr> ''/r'') = Some (41, None)"
  using loop_link loop_returns [of 0 "\<lparr>cancelled = False\<rparr>"]
  by simp

end
